theory Spec2Isabelle
  imports Main "HOL-Library.Multiset"
begin

section \<open>The graph package: vertex and edge store\<close>

text \<open>
  A Go \<open>Vertex\<close> is an interface value; \<open>nil\<close> is the one value every mutator rejects.
  An argument of the API is therefore a \<open>'v option\<close> with \<open>None\<close> for \<open>nil\<close>, and a
  stored vertex is a \<open>'v\<close>: the two maps of the struct are private, and \<open>AddVertex\<close>,
  \<open>AddEdge\<close> and \<open>Connect\<close> are the only writers and return before the write when they
  see \<open>nil\<close>.

  An \<open>Edge\<close> is read only through \<open>From()\<close> and \<open>To()\<close>, so it is the pair of its
  endpoints. The map \<open>edges\<close> is keyed by the edge object: it is the list of the stored
  edge objects, in the order in which \<open>range\<close> yields them, and two stored objects may
  carry the same endpoints as far as the type is concerned. The map \<open>vertices\<close> is keyed
  by the vertex itself: it is the list of its keys in \<open>range\<close> order. Go leaves that
  order open; every statement below holds for every list, hence for every order that
  the loops of one call see.
\<close>

type_synonym 'v Vertex = "'v option"

type_synonym 'v Edge = "'v Vertex \<times> 'v Vertex"

definition From :: "'v Edge \<Rightarrow> 'v Vertex" where
  "From e = fst e"

definition To :: "'v Edge \<Rightarrow> 'v Vertex" where
  "To e = snd e"

definition RealEdge :: "'v Vertex \<Rightarrow> 'v Vertex \<Rightarrow> 'v Edge" where
  "RealEdge from to = (from, to)"

record 'v DAG =
  vertices :: "'v list"
  edges :: "('v \<times> 'v) list"

definition NewDAG :: "'v DAG" where
  "NewDAG = \<lparr>vertices = [], edges = []\<rparr>"

text \<open>\<open>d.vertices[v] = v\<close>: a key already present stays where it is.\<close>

definition put_key :: "'a \<Rightarrow> 'a list \<Rightarrow> 'a list" where
  "put_key k ks = (if k \<in> set ks then ks else ks @ [k])"

fun AddVertex :: "'v Vertex \<Rightarrow> 'v DAG \<Rightarrow> bool \<times> 'v DAG" where
  "AddVertex None d = (False, d)"
| "AddVertex (Some v) d = (True, d\<lparr>vertices := put_key v (vertices d)\<rparr>)"

fun RemoveVertex :: "'v Vertex \<Rightarrow> 'v DAG \<Rightarrow> bool \<times> 'v DAG" where
  "RemoveVertex None d = (True, d)"
| "RemoveVertex (Some v) d =
     (True, d\<lparr>edges := filter (\<lambda>k. \<not> (fst k = v \<or> snd k = v)) (edges d),
              vertices := filter (\<lambda>u. u \<noteq> v) (vertices d)\<rparr>)"

definition Vertices :: "'v DAG \<Rightarrow> 'v list" where
  "Vertices d = vertices d"

text \<open>The scan of \<open>AddEdge\<close>, \<open>RemoveEdge\<close> and \<open>Connect\<close> for a stored edge with the
  given endpoints.\<close>

definition has_edge :: "'v DAG \<Rightarrow> 'v \<Rightarrow> 'v \<Rightarrow> bool" where
  "has_edge d a b = list_ex (\<lambda>k. fst k = a \<and> snd k = b) (edges d)"

definition AddEdge :: "'v Edge \<Rightarrow> 'v DAG \<Rightarrow> bool \<times> 'v DAG" where
  "AddEdge e d =
     (case (From e, To e) of
        (Some a, Some b) \<Rightarrow>
          if has_edge d a b then (True, d) else (True, d\<lparr>edges := edges d @ [(a, b)]\<rparr>)
      | _ \<Rightarrow> (False, d))"

definition RemoveEdge :: "'v Edge \<Rightarrow> 'v DAG \<Rightarrow> bool \<times> 'v DAG" where
  "RemoveEdge e d =
     (True, d\<lparr>edges := filter (\<lambda>k. \<not> (Some (fst k) = From e \<and> Some (snd k) = To e)) (edges d)\<rparr>)"

definition Connect :: "'v Vertex \<Rightarrow> 'v Vertex \<Rightarrow> 'v DAG \<Rightarrow> bool \<times> 'v DAG" where
  "Connect from to d =
     (case (from, to) of
        (Some a, Some b) \<Rightarrow>
          if has_edge d a b then (True, d) else (True, d\<lparr>edges := edges d @ [(a, b)]\<rparr>)
      | _ \<Rightarrow> (False, d))"

definition outAdj :: "'v DAG \<Rightarrow> 'v \<Rightarrow> 'v list" where
  "outAdj d v = map snd (filter (\<lambda>e. fst e = v) (edges d))"

definition inAdj :: "'v DAG \<Rightarrow> 'v \<Rightarrow> 'v list" where
  "inAdj d v = map fst (filter (\<lambda>e. snd e = v) (edges d))"

definition Root :: "'v DAG \<Rightarrow> 'v Vertex" where
  "Root d =
     (let roots = filter (\<lambda>n. length (inAdj d n) = 0) (vertices d)
      in if length roots \<noteq> 1 then None else Some (hd roots))"

text \<open>What every store built from \<open>NewDAG\<close> by the mutators satisfies: a Go map has each
  key once, and no two stored edges share their endpoint pair.\<close>

definition store_inv :: "'v DAG \<Rightarrow> bool" where
  "store_inv d \<longleftrightarrow> distinct (vertices d) \<and> distinct (edges d)"

section \<open>The graph package: validation and walks\<close>

text \<open>
  The three errors that \<open>validate\<close> makes: \<open>"no single Root found"\<close>,
  \<open>"self-cycle found: %v"\<close> and \<open>"cycle found"\<close>. Go's \<open>error\<close> is an interface: for a
  caller of the walks it is one of these, or whatever error its own \<open>WalkFunc\<close>
  returned (\<open>Foreign\<close>).
\<close>

datatype 'v invalid = NoSingleRootFound | SelfCycleFound 'v | CycleFound

datatype ('v, 'e) error = Invalid "'v invalid" | Foreign 'e

text \<open>The two maps \<open>walked\<close> and \<open>marked\<close> of \<open>validate\<close>, of type \<open>map[Vertex]bool\<close>:
  a missing key reads \<open>false\<close>.\<close>

record 'v cycle_state =
  walked :: "'v \<Rightarrow> bool"
  marked :: "'v \<Rightarrow> bool"

text \<open>
  The closure \<open>walk\<close> of \<open>validate\<close> together with the \<open>for\<close> loop that calls it: the
  vertices of the list are walked in turn and the first error ends the loop. The loop
  over \<open>d.vertices\<close> at the end of \<open>validate\<close> and the loop over \<open>adjacent\<close> inside
  \<open>walk\<close> are both this function; \<open>walk v\<close> is the list \<open>[v]\<close>. The result \<open>None\<close>
  stands for a recursion that does not return.
\<close>

partial_function (option) cycle_walk_each ::
  "'v DAG \<Rightarrow> 'v list \<Rightarrow> 'v cycle_state \<Rightarrow> ('v invalid + 'v cycle_state) option" where
  "cycle_walk_each d vs st =
     (case vs of
        [] \<Rightarrow> Some (Inr st)
      | v # rest \<Rightarrow>
          if walked st v then cycle_walk_each d rest st
          else if marked st v then Some (Inl CycleFound)
          else Option.bind
                 (cycle_walk_each d (outAdj d v) (st\<lparr>marked := (marked st)(v := True)\<rparr>))
                 (\<lambda>r. case r of
                         Inl err \<Rightarrow> Some (Inl err)
                       | Inr st' \<Rightarrow>
                           cycle_walk_each d rest
                             (st'\<lparr>marked := (marked st')(v := False),
                                  walked := (walked st')(v := True)\<rparr>)))"

definition validate :: "'v DAG \<Rightarrow> 'v invalid option option" where
  "validate d =
     (case Root d of
        None \<Rightarrow> Some (Some NoSingleRootFound)
      | Some root \<Rightarrow>
          (case find (\<lambda>e. fst e = snd e) (edges d) of
             Some e \<Rightarrow> Some (Some (SelfCycleFound (fst e)))
           | None \<Rightarrow>
               map_option (\<lambda>r. case r of Inl err \<Rightarrow> Some err | Inr st \<Rightarrow> None)
                 (cycle_walk_each d (vertices d)
                    \<lparr>walked = (\<lambda>v. False), marked = (\<lambda>v. False)\<rparr>)))"

text \<open>The slice \<open>orders\<close> and the map \<open>walked\<close> of \<open>topologicalOrder\<close>; the field of the
  map is called \<open>seen\<close> here, the name \<open>walked\<close> being the field of the state of
  \<open>validate\<close>. \<open>adjacent\<close> is the choice that \<open>walk\<close> makes by the flag \<open>reverse\<close>.\<close>

record 'v topo_state =
  orders :: "'v list"
  seen :: "'v \<Rightarrow> bool"

definition adjacent :: "'v DAG \<Rightarrow> bool \<Rightarrow> 'v \<Rightarrow> 'v list" where
  "adjacent d reverse v = (if reverse then outAdj d v else inAdj d v)"

text \<open>
  The closure \<open>walk\<close> of \<open>topologicalOrder\<close> with the loop that calls it, as above. This
  walk has no guard against a vertex that is on the recursion path: on a cycle it
  calls itself for ever, and the value is \<open>None\<close>.
\<close>

partial_function (option) topo_walk_each ::
  "'v DAG \<Rightarrow> bool \<Rightarrow> 'v list \<Rightarrow> 'v topo_state \<Rightarrow> 'v topo_state option" where
  "topo_walk_each d reverse vs st =
     (case vs of
        [] \<Rightarrow> Some st
      | v # rest \<Rightarrow>
          if seen st v then topo_walk_each d reverse rest st
          else Option.bind (topo_walk_each d reverse (adjacent d reverse v) st)
                 (\<lambda>st'. topo_walk_each d reverse rest
                           (st'\<lparr>seen := (seen st')(v := True), orders := orders st' @ [v]\<rparr>)))"

definition topologicalOrder :: "'v DAG \<Rightarrow> bool \<Rightarrow> 'v list option" where
  "topologicalOrder d reverse =
     map_option orders
       (topo_walk_each d reverse (vertices d) \<lparr>orders = [], seen = (\<lambda>v. False)\<rparr>)"

text \<open>
  A \<open>WalkFunc\<close> is a closure: it reads and writes state of its caller, which the model
  passes through. The loop over \<open>orders\<close> returns at the first error.
\<close>

type_synonym ('v, 'e, 's) WalkFunc = "'v \<Rightarrow> 's \<Rightarrow> ('v, 'e) error option \<times> 's"

fun walk_loop :: "('v, 'e, 's) WalkFunc \<Rightarrow> 'v list \<Rightarrow> 's \<Rightarrow> ('v, 'e) error option \<times> 's" where
  "walk_loop walkFunc [] s = (None, s)"
| "walk_loop walkFunc (v # vs) s =
     (case walkFunc v s of
        (Some err, s') \<Rightarrow> (Some err, s')
      | (None, s') \<Rightarrow> walk_loop walkFunc vs s')"

text \<open>\<open>WalkTopoOrder\<close> and \<open>WalkReverseTopoOrder\<close> are the same lines but for the flag
  they give to \<open>topologicalOrder\<close>.\<close>

definition walk_in_order ::
  "bool \<Rightarrow> 'v DAG \<Rightarrow> ('v, 'e, 's) WalkFunc \<Rightarrow> 's \<Rightarrow> (('v, 'e) error option \<times> 's) option" where
  "walk_in_order reverse d walkFunc s =
     Option.bind (validate d)
       (\<lambda>r. case r of
              Some err \<Rightarrow> Some (Some (Invalid err), s)
            | None \<Rightarrow> map_option (\<lambda>os. walk_loop walkFunc os s) (topologicalOrder d reverse))"

definition WalkTopoOrder ::
  "'v DAG \<Rightarrow> ('v, 'e, 's) WalkFunc \<Rightarrow> 's \<Rightarrow> (('v, 'e) error option \<times> 's) option" where
  "WalkTopoOrder d walkFunc s = walk_in_order False d walkFunc s"

definition WalkReverseTopoOrder ::
  "'v DAG \<Rightarrow> ('v, 'e, 's) WalkFunc \<Rightarrow> 's \<Rightarrow> (('v, 'e) error option \<times> 's) option" where
  "WalkReverseTopoOrder d walkFunc s = walk_in_order True d walkFunc s"

text \<open>
  The visit counter of a test: a \<open>WalkFunc\<close> that runs the given one and appends the
  vertex and what the call returned to a log kept next to the caller's state.
\<close>

definition logging :: "('v, 'e, 's) WalkFunc \<Rightarrow> ('v, 'e, 's \<times> ('v \<times> ('v, 'e) error option) list) WalkFunc" where
  "logging walkFunc v sl =
     (case walkFunc v (fst sl) of (r, s') \<Rightarrow> (r, (s', snd sl @ [(v, r)])))"

text \<open>\<open>before u v xs\<close>: some occurrence of \<open>u\<close> in \<open>xs\<close> is followed, later, by \<open>v\<close>.\<close>

fun before :: "'a \<Rightarrow> 'a \<Rightarrow> 'a list \<Rightarrow> bool" where
  "before u v [] = False"
| "before u v (x # xs) = ((x = u \<and> v \<in> set xs) \<or> before u v xs)"

text \<open>The graph that the claims about walks are about: every endpoint of an edge is a
  stored vertex, one vertex has no incoming edge, and no path of edges returns to its
  start.\<close>

definition edge_rel :: "'v DAG \<Rightarrow> ('v \<times> 'v) set" where
  "edge_rel d = set (edges d)"

definition valid_dag :: "'v DAG \<Rightarrow> bool" where
  "valid_dag d \<longleftrightarrow>
     distinct (vertices d) \<and>
     (\<forall>e \<in> set (edges d). fst e \<in> set (vertices d) \<and> snd e \<in> set (vertices d)) \<and>
     length (filter (\<lambda>n. inAdj d n = []) (vertices d)) = 1 \<and>
     acyclic (edge_rel d)"

section \<open>Invariants of the two walks\<close>

text \<open>What a returned cycle walk has done to its state: \<open>marked\<close> is as before, \<open>walked\<close>
  has only grown, and the vertices of the list are walked.\<close>

definition cw_post :: "'v list \<Rightarrow> 'v cycle_state \<Rightarrow> 'v cycle_state \<Rightarrow> bool" where
  "cw_post vs st st' \<longleftrightarrow>
     marked st' = marked st \<and> (\<forall>x. walked st x \<longrightarrow> walked st' x) \<and> (\<forall>v \<in> set vs. walked st' v)"

definition unvisited :: "'v set \<Rightarrow> 'v cycle_state \<Rightarrow> 'v set" where
  "unvisited U st = {x \<in> U. \<not> walked st x \<and> \<not> marked st x}"

definition reach_set :: "'v DAG \<Rightarrow> 'v set" where
  "reach_set d = set (vertices d) \<union> snd ` set (edges d)"

definition closed_walked :: "'v DAG \<Rightarrow> 'v cycle_state \<Rightarrow> bool" where
  "closed_walked d st \<longleftrightarrow>
     (\<forall>u w. walked st u \<longrightarrow> (u, w) \<in> edge_rel d \<longrightarrow> walked st w) \<and>
     (\<forall>u. walked st u \<longrightarrow> (u, u) \<notin> (edge_rel d)\<^sup>+)"

definition adj_rel :: "'v DAG \<Rightarrow> bool \<Rightarrow> ('v \<times> 'v) set" where
  "adj_rel d reverse = {(u, v). u \<in> set (adjacent d reverse v)}"

definition topo_inv :: "'v DAG \<Rightarrow> bool \<Rightarrow> 'v topo_state \<Rightarrow> bool" where
  "topo_inv d reverse st \<longleftrightarrow>
     (\<forall>x. seen st x \<longleftrightarrow> x \<in> set (orders st)) \<and> distinct (orders st) \<and>
     (\<forall>x \<in> set (orders st). \<forall>u \<in> set (adjacent d reverse x). before u x (orders st))"

definition topo_post :: "'v DAG \<Rightarrow> bool \<Rightarrow> 'v list \<Rightarrow> 'v topo_state \<Rightarrow> 'v topo_state \<Rightarrow> bool" where
  "topo_post d reverse vs st st' \<longleftrightarrow>
     topo_inv d reverse st' \<and> (\<forall>x. seen st x \<longrightarrow> seen st' x) \<and> (\<forall>v \<in> set vs. seen st' v) \<and>
     (\<forall>x. seen st' x \<longrightarrow> seen st x \<or> (\<exists>v \<in> set vs. (x, v) \<in> (adj_rel d reverse)\<^sup>*))"

section \<open>Example graphs\<close>

definition diamond :: "nat DAG" where
  "diamond = \<lparr>vertices = [4, 2, 3, 1], edges = [(1, 2), (1, 3), (2, 4), (3, 4)]\<rparr>"

definition chain5 :: "nat DAG" where
  "chain5 = \<lparr>vertices = [3, 1, 5, 2, 4], edges = [(1, 2), (2, 3), (3, 4), (4, 5)]\<rparr>"

definition fail_on_third :: "(nat, string, nat) WalkFunc" where
  "fail_on_third v visits = (if v = 3 then Some (Foreign ''third'') else None, Suc visits)"

definition two_cycle :: "nat DAG" where
  "two_cycle = \<lparr>vertices = [0, 1, 2], edges = [(0, 1), (1, 2), (2, 1)]\<rparr>"

definition self_loop :: "nat DAG" where
  "self_loop = \<lparr>vertices = [0, 1], edges = [(0, 1), (1, 1)]\<rparr>"

definition two_roots :: "nat DAG" where
  "two_roots = \<lparr>vertices = [0, 1, 2], edges = [(0, 2), (1, 2)]\<rparr>"

section \<open>The view package: object types, references and ownership rules\<close>

text \<open>
  \<open>schema.GroupVersion\<close> and \<open>schema.GroupVersionKind\<close> of the Kubernetes library are
  structs of strings, compared with \<open>==\<close> field by field; \<open>WithKind\<close> and
  \<open>GroupVersion()\<close> copy the fields.
\<close>

record GroupVersion =
  Group :: string
  Version :: string

record GroupVersionKind = GroupVersion +
  Kind :: string

definition WithKind :: "GroupVersion \<Rightarrow> string \<Rightarrow> GroupVersionKind" where
  "WithKind gv kind = \<lparr>Group = Group gv, Version = Version gv, Kind = kind\<rparr>"

definition GroupVersion_of :: "GroupVersionKind \<Rightarrow> GroupVersion" where
  "GroupVersion_of gvk = \<lparr>Group = Group gvk, Version = Version gvk\<rparr>"

text \<open>Modelled from the spec: the type \<open>ObjectType\<close> of the API package of the views,
  declared outside the files at hand: ``a (group/version, kind) pair identifying a
  resource schema'', read by \<open>objectTypeToGVK\<close> as \<open>APIVersion\<close> and \<open>Kind\<close>.\<close>

record ObjectType =
  APIVersion :: string
  TypeKind :: string

text \<open>\<open>corev1.ObjectReference\<close> with the six fields that \<open>getObjectReference\<close> fills, and
  \<open>model.GVKNObjKey\<close>, the identity of an object: its type and its namespaced name.\<close>

record ObjectReference =
  RefAPIVersion :: string
  RefKind :: string
  Namespace :: string
  Name :: string
  UID :: string
  ResourceVersion :: string

record GVKNObjKey =
  KeyGVK :: GroupVersionKind
  ObjectKey :: "string \<times> string"

type_synonym MatchingLabels = "(string \<times> string) list"

text \<open>Modelled from the spec: the types \<open>OwnershipCriteria\<close>, \<open>OwnedResource\<close> and
  \<open>OwnershipRule\<close> of the package, declared outside the files at hand: a rule ``maps one
  Primary ObjectType to a list of OwnedResource entries; each entry names a Secondary
  ObjectType and a Criteria'', which is a selector criteria with the field path that
  \<open>parseMatchingLabels\<close> reads, or a label criteria with a label map, both of which may be
  nil.\<close>

record OwnershipCriteria =
  SelectorCriteria :: "string option"
  LabelCriteria :: "(string \<times> string) list option"

record OwnedResource =
  Secondary :: ObjectType
  Criteria :: OwnershipCriteria

record OwnershipRule =
  Primary :: ObjectType
  OwnedResources :: "OwnedResource list"

text \<open>Modelled from the spec: the type \<open>ObjectTreeNode\<close> of the API package of the views,
  declared outside the files at hand: ``one Primary ObjectReference plus an ordered list
  of child ObjectTreeNode values (Secondaries)''.\<close>

datatype ObjectTreeNode =
  ObjectTreeNode (TreePrimary: ObjectReference) (Secondaries: "ObjectTreeNode list")

text \<open>
  The errors: those of the libraries and of the client (\<open>External\<close>), the three that the
  package makes with \<open>fmt.Errorf\<close>, and the panic of \<open>*gvk\<close> on a nil pointer.
\<close>

datatype 'x view_error =
    External 'x
  | ParseMatchingLabelsFailed
  | NotAnObjectList GroupVersionKind
  | NotAClientObject GroupVersionKind
  | NilDereference

text \<open>
  What the package calls and does not define: \<open>schema.ParseGroupVersion\<close>,
  \<open>GroupVersion.String\<close>, \<open>apiutil.GVKForObject\<close> on the scheme of the client, the
  accessors of \<open>client.Object\<close>, \<open>Scheme().New\<close>, the two type assertions of
  \<open>getObjectsByGVK\<close>, \<open>cli.List\<close>, \<open>meta.ExtractList\<close>, and the helpers \<open>parseSelector\<close>
  and \<open>parseLabels\<close> of the package, which are not in the files at hand.
\<close>

record ('obj, 'robj, 'olist, 'x) client =
  ParseGroupVersion :: "string \<Rightarrow> 'x + GroupVersion"
  GroupVersionString :: "GroupVersion \<Rightarrow> string"
  GVKForObject :: "'obj \<Rightarrow> 'x + GroupVersionKind"
  GetNamespace :: "'obj \<Rightarrow> string"
  GetName :: "'obj \<Rightarrow> string"
  GetUID :: "'obj \<Rightarrow> string"
  GetResourceVersion :: "'obj \<Rightarrow> string"
  SchemeNew :: "GroupVersionKind \<Rightarrow> 'x + 'robj"
  asObjectList :: "'robj \<Rightarrow> 'olist option"
  ClientList :: "'olist \<Rightarrow> MatchingLabels \<Rightarrow> 'x + 'olist"
  ExtractList :: "'olist \<Rightarrow> 'x + 'robj list"
  asObject :: "'robj \<Rightarrow> 'obj option"
  parseSelector :: "'obj \<Rightarrow> string \<Rightarrow> 'x + MatchingLabels"
  parseLabels :: "'obj \<Rightarrow> (string \<times> string) list \<Rightarrow> MatchingLabels"

definition objectTypeToGVK ::
  "('obj, 'robj, 'olist, 'x) client \<Rightarrow> ObjectType option \<Rightarrow> 'x view_error + GroupVersionKind option" where
  "objectTypeToGVK cli objectType =
     (case objectType of
        None \<Rightarrow> Inr None
      | Some t \<Rightarrow>
          (case ParseGroupVersion cli (APIVersion t) of
             Inl err \<Rightarrow> Inl (External err)
           | Inr gv \<Rightarrow> Inr (Some (WithKind gv (TypeKind t)))))"

definition objectReferenceToRef ::
  "('obj, 'robj, 'olist, 'x) client \<Rightarrow> ObjectReference option \<Rightarrow> 'x view_error + GVKNObjKey option" where
  "objectReferenceToRef cli reference =
     (case reference of
        None \<Rightarrow> Inr None
      | Some r \<Rightarrow>
          (case ParseGroupVersion cli (RefAPIVersion r) of
             Inl err \<Rightarrow> Inl (External err)
           | Inr gv \<Rightarrow>
               Inr (Some \<lparr>KeyGVK = WithKind gv (RefKind r), ObjectKey = (Namespace r, Name r)\<rparr>)))"

definition getObjectRef ::
  "('obj, 'robj, 'olist, 'x) client \<Rightarrow> 'obj \<Rightarrow> 'x view_error + GVKNObjKey" where
  "getObjectRef cli object =
     (case GVKForObject cli object of
        Inl err \<Rightarrow> Inl (External err)
      | Inr gvk \<Rightarrow>
          Inr \<lparr>KeyGVK = gvk, ObjectKey = (GetNamespace cli object, GetName cli object)\<rparr>)"

definition getObjectReference ::
  "('obj, 'robj, 'olist, 'x) client \<Rightarrow> 'obj \<Rightarrow> 'x view_error + ObjectReference" where
  "getObjectReference cli obj =
     (case GVKForObject cli obj of
        Inl err \<Rightarrow> Inl (External err)
      | Inr gvk \<Rightarrow>
          Inr \<lparr>RefAPIVersion = GroupVersionString cli (GroupVersion_of gvk),
               RefKind = Kind gvk,
               Namespace = GetNamespace cli obj,
               Name = GetName cli obj,
               UID = GetUID cli obj,
               ResourceVersion = GetResourceVersion cli obj\<rparr>)"

text \<open>The loop of \<open>getObjectsByGVK\<close> that asserts each listed object to be a
  \<open>client.Object\<close>.\<close>

fun assert_objects ::
  "('obj, 'robj, 'olist, 'x) client \<Rightarrow> GroupVersionKind \<Rightarrow> 'robj list \<Rightarrow> 'x view_error + 'obj list" where
  "assert_objects cli gvk [] = Inr []"
| "assert_objects cli gvk (object # rest) =
     (case asObject cli object of
        None \<Rightarrow> Inl (NotAClientObject gvk)
      | Some ob \<Rightarrow>
          (case assert_objects cli gvk rest of
             Inl err \<Rightarrow> Inl err
           | Inr objects \<Rightarrow> Inr (ob # objects)))"

definition getObjectsByGVK ::
  "('obj, 'robj, 'olist, 'x) client \<Rightarrow> GroupVersionKind \<Rightarrow> MatchingLabels \<Rightarrow> 'x view_error + 'obj list" where
  "getObjectsByGVK cli gvk opts =
     (case SchemeNew cli \<lparr>Group = Group gvk, Version = Version gvk, Kind = Kind gvk @ ''List''\<rparr> of
        Inl err \<Rightarrow> Inl (External err)
      | Inr runtimeObjectList \<Rightarrow>
          (case asObjectList cli runtimeObjectList of
             None \<Rightarrow> Inl (NotAnObjectList gvk)
           | Some objectList \<Rightarrow>
               (case ClientList cli objectList opts of
                  Inl err \<Rightarrow> Inl (External err)
                | Inr listed \<Rightarrow>
                    (case ExtractList cli listed of
                       Inl err \<Rightarrow> Inl (External err)
                     | Inr runtimeObjects \<Rightarrow> assert_objects cli gvk runtimeObjects))))"

definition parseMatchingLabels ::
  "('obj, 'robj, 'olist, 'x) client \<Rightarrow> 'obj \<Rightarrow> OwnershipCriteria \<Rightarrow> 'x view_error + MatchingLabels" where
  "parseMatchingLabels cli obj criteria =
     (case SelectorCriteria criteria of
        Some path \<Rightarrow>
          (case parseSelector cli obj path of Inl err \<Rightarrow> Inl (External err) | Inr ml \<Rightarrow> Inr ml)
      | None \<Rightarrow>
          (case LabelCriteria criteria of
             Some labels \<Rightarrow> Inr (parseLabels cli obj labels)
           | None \<Rightarrow> Inl ParseMatchingLabelsFailed))"

text \<open>
  The loop ``find matched rules'', written out twice in the source, in
  \<open>getSecondaryObjectsOf\<close> and in \<open>getObjectTreeFromCache\<close>: each rule's \<open>Primary\<close> is
  parsed, a parse error ends the whole operation, and the rule is kept when the parsed
  value \<open>==\<close> the object's.
\<close>

fun matched_rules ::
  "('obj, 'robj, 'olist, 'x) client \<Rightarrow> GroupVersionKind \<Rightarrow> OwnershipRule list \<Rightarrow>
     'x view_error + OwnershipRule list" where
  "matched_rules cli objGVK [] = Inr []"
| "matched_rules cli objGVK (rule # rest) =
     (case objectTypeToGVK cli (Some (Primary rule)) of
        Inl err \<Rightarrow> Inl err
      | Inr None \<Rightarrow> Inl NilDereference
      | Inr (Some gvk) \<Rightarrow>
          (case matched_rules cli objGVK rest of
             Inl err \<Rightarrow> Inl err
           | Inr rules \<Rightarrow> Inr (if gvk = objGVK then rule # rules else rules)))"

text \<open>The two nested loops ``get secondary objects''.\<close>

fun owned_objects ::
  "('obj, 'robj, 'olist, 'x) client \<Rightarrow> 'obj \<Rightarrow> OwnedResource list \<Rightarrow> 'x view_error + 'obj list" where
  "owned_objects cli obj [] = Inr []"
| "owned_objects cli obj (ownedResource # rest) =
     (case objectTypeToGVK cli (Some (Secondary ownedResource)) of
        Inl err \<Rightarrow> Inl err
      | Inr None \<Rightarrow> Inl NilDereference
      | Inr (Some gvk) \<Rightarrow>
          (case parseMatchingLabels cli obj (Criteria ownedResource) of
             Inl err \<Rightarrow> Inl err
           | Inr ml \<Rightarrow>
               (case getObjectsByGVK cli gvk ml of
                  Inl err \<Rightarrow> Inl err
                | Inr objects \<Rightarrow>
                    (case owned_objects cli obj rest of
                       Inl err \<Rightarrow> Inl err
                     | Inr others \<Rightarrow> Inr (objects @ others)))))"

fun secondaries_of_rules ::
  "('obj, 'robj, 'olist, 'x) client \<Rightarrow> 'obj \<Rightarrow> OwnershipRule list \<Rightarrow> 'x view_error + 'obj list" where
  "secondaries_of_rules cli obj [] = Inr []"
| "secondaries_of_rules cli obj (rule # rest) =
     (case owned_objects cli obj (OwnedResources rule) of
        Inl err \<Rightarrow> Inl err
      | Inr objects \<Rightarrow>
          (case secondaries_of_rules cli obj rest of
             Inl err \<Rightarrow> Inl err
           | Inr others \<Rightarrow> Inr (objects @ others)))"

definition getSecondaryObjectsOf ::
  "('obj, 'robj, 'olist, 'x) client \<Rightarrow> 'obj \<Rightarrow> OwnershipRule list \<Rightarrow> 'x view_error + 'obj list" where
  "getSecondaryObjectsOf cli obj ownershipRules =
     (case GVKForObject cli obj of
        Inl err \<Rightarrow> Inl (External err)
      | Inr objGVK \<Rightarrow>
          (case matched_rules cli objGVK ownershipRules of
             Inl err \<Rightarrow> Inl err
           | Inr rules \<Rightarrow> secondaries_of_rules cli obj rules))"

text \<open>
  \<open>getObjectTreeFromCache\<close> on each object of a list, in turn: the loop ``build
  subtree'' over \<open>secondaries\<close> is this function, and the call on one primary is the
  list of that primary. The recursion follows the ownership rules with no guard: where
  an object owns itself, directly or through others, it does not return, and the value
  is \<open>None\<close>.
\<close>

partial_function (option) tree_each ::
  "('obj, 'robj, 'olist, 'x) client \<Rightarrow> OwnershipRule list \<Rightarrow> 'obj list \<Rightarrow>
     ('x view_error + ObjectTreeNode list) option" where
  "tree_each cli ownershipRules objs =
     (case objs of
        [] \<Rightarrow> Some (Inr [])
      | primary # rest \<Rightarrow>
          (case getObjectReference cli primary of
             Inl err \<Rightarrow> Some (Inl err)
           | Inr reference \<Rightarrow>
               (case GVKForObject cli primary of
                  Inl err \<Rightarrow> Some (Inl (External err))
                | Inr primaryGVK \<Rightarrow>
                    (case matched_rules cli primaryGVK ownershipRules of
                       Inl err \<Rightarrow> Some (Inl err)
                     | Inr matchedRules \<Rightarrow>
                         (case getSecondaryObjectsOf cli primary matchedRules of
                            Inl err \<Rightarrow> Some (Inl err)
                          | Inr secondaries \<Rightarrow>
                              Option.bind (tree_each cli ownershipRules secondaries)
                                (\<lambda>r. case r of
                                        Inl err \<Rightarrow> Some (Inl err)
                                      | Inr subTrees \<Rightarrow>
                                          Option.bind (tree_each cli ownershipRules rest)
                                            (\<lambda>r'. case r' of
                                                     Inl err \<Rightarrow> Some (Inl err)
                                                   | Inr trees \<Rightarrow>
                                                       Some (Inr (ObjectTreeNode reference subTrees # trees)))))))))"

text \<open>The call on one primary: the list of one object gives a list of one tree
  (\<open>tree_each_post_aux\<close> below), which is the tree returned; a nil primary gives
  \<open>nil, nil\<close>.\<close>

definition getObjectTreeFromCache ::
  "('obj, 'robj, 'olist, 'x) client \<Rightarrow> 'obj option \<Rightarrow> OwnershipRule list \<Rightarrow>
     ('x view_error + ObjectTreeNode option) option" where
  "getObjectTreeFromCache cli primary ownershipRules =
     (case primary of
        None \<Rightarrow> Some (Inr None)
      | Some p \<Rightarrow>
          map_option (\<lambda>r. case r of Inl err \<Rightarrow> Inl err | Inr trees \<Rightarrow> Inr (Some (hd trees)))
            (tree_each cli ownershipRules [p]))"

text \<open>
  The loop of \<open>getObjectsFromCache\<close>: \<open>waitingList\<close> is the list, front first;
  \<open>objectSet\<close> is a \<open>sets.Set\<close>, \<open>objectMap\<close> a Go map. Every secondary is pushed to the
  back, whether its key is in \<open>objectSet\<close> already or not.
\<close>

partial_function (option) collect_loop ::
  "('obj, 'robj, 'olist, 'x) client \<Rightarrow> OwnershipRule list \<Rightarrow> 'obj list \<Rightarrow>
     GVKNObjKey set \<Rightarrow> (GVKNObjKey \<rightharpoonup> 'obj) \<Rightarrow>
     ('x view_error + GVKNObjKey set \<times> (GVKNObjKey \<rightharpoonup> 'obj)) option" where
  "collect_loop cli ownershipRules waitingList objectSet objectMap =
     (case waitingList of
        [] \<Rightarrow> Some (Inr (objectSet, objectMap))
      | obj # rest \<Rightarrow>
          (case getObjectRef cli obj of
             Inl err \<Rightarrow> Some (Inl err)
           | Inr objKey \<Rightarrow>
               (case getSecondaryObjectsOf cli obj ownershipRules of
                  Inl err \<Rightarrow> Some (Inl err)
                | Inr secondaries \<Rightarrow>
                    collect_loop cli ownershipRules (rest @ secondaries)
                      (insert objKey objectSet) (objectMap(objKey \<mapsto> obj)))))"

definition getObjectsFromCache ::
  "('obj, 'robj, 'olist, 'x) client \<Rightarrow> 'obj \<Rightarrow> OwnershipRule list \<Rightarrow>
     ('x view_error + GVKNObjKey set \<times> (GVKNObjKey \<rightharpoonup> 'obj)) option" where
  "getObjectsFromCache cli root ownershipRules =
     collect_loop cli ownershipRules [root] {} Map.empty"

section \<open>Reachability along ownership\<close>

definition owned_rel :: "('obj, 'robj, 'olist, 'x) client \<Rightarrow> OwnershipRule list \<Rightarrow> ('obj \<times> 'obj) set" where
  "owned_rel cli ownershipRules =
     {(secondary, obj). \<exists>secondaries. getSecondaryObjectsOf cli obj ownershipRules = Inr secondaries \<and>
                          secondary \<in> set secondaries}"

fun tree_primaries :: "ObjectTreeNode \<Rightarrow> ObjectReference list" where
  "tree_primaries (ObjectTreeNode primary secondaries) =
     primary # concat (map tree_primaries secondaries)"

definition reachable :: "('obj, 'robj, 'olist, 'x) client \<Rightarrow> OwnershipRule list \<Rightarrow> 'obj list \<Rightarrow> 'obj set" where
  "reachable cli rules objs = {y. \<exists>x \<in> set objs. (y, x) \<in> (owned_rel cli rules)\<^sup>*}"

definition keys_of :: "('obj, 'robj, 'olist, 'x) client \<Rightarrow> 'obj set \<Rightarrow> GVKNObjKey set" where
  "keys_of cli X = {k. \<exists>y \<in> X. getObjectRef cli y = Inr k}"

definition refs_of :: "('obj, 'robj, 'olist, 'x) client \<Rightarrow> 'obj set \<Rightarrow> ObjectReference set" where
  "refs_of cli X = {r. \<exists>y \<in> X. getObjectReference cli y = Inr r}"

definition collect_post ::
  "('obj, 'robj, 'olist, 'x) client \<Rightarrow> 'obj set \<Rightarrow> GVKNObjKey set \<Rightarrow> (GVKNObjKey \<rightharpoonup> 'obj) \<Rightarrow>
     GVKNObjKey set \<Rightarrow> (GVKNObjKey \<rightharpoonup> 'obj) \<Rightarrow> bool" where
  "collect_post cli X S M S' M' \<longleftrightarrow>
     S' = S \<union> keys_of cli X \<and> dom M' = dom M \<union> keys_of cli X \<and>
     (\<forall>k ob. M' k = Some ob \<longrightarrow> M k = Some ob \<or> getObjectRef cli ob = Inr k)"

definition owned_below :: "('obj, 'robj, 'olist, 'x) client \<Rightarrow> OwnershipRule list \<Rightarrow> 'obj \<Rightarrow> ('obj \<times> 'obj) set" where
  "owned_below cli rules root =
     {(secondary, obj). (secondary, obj) \<in> owned_rel cli rules \<and> obj \<in> reachable cli rules [root]}"

section \<open>An example cache\<close>

record demo_obj =
  okind :: string
  oname :: string
  olabels :: "(string \<times> string) list"

datatype demo_runtime = RList string "demo_obj list" | RItem demo_obj

definition demo_parse :: "string \<Rightarrow> string + GroupVersion" where
  "demo_parse s =
     (case filter (\<lambda>c. c = CHR ''/'') s of
        [] \<Rightarrow> Inr \<lparr>Group = [], Version = s\<rparr>
      | [x] \<Rightarrow> Inr \<lparr>Group = takeWhile (\<lambda>c. c \<noteq> CHR ''/'') s,
                     Version = tl (dropWhile (\<lambda>c. c \<noteq> CHR ''/'') s)\<rparr>
      | _ \<Rightarrow> Inl ''unexpected GroupVersion string'')"

definition demo_client ::
  "demo_obj list \<Rightarrow> (demo_obj, demo_runtime, string \<times> demo_obj list, string) client" where
  "demo_client cache =
     \<lparr>ParseGroupVersion = demo_parse,
      GroupVersionString = (\<lambda>gv. if Group gv = [] then Version gv else Group gv @ ''/'' @ Version gv),
      GVKForObject = (\<lambda>ob. Inr \<lparr>Group = [], Version = ''v1'', Kind = okind ob\<rparr>),
      GetNamespace = (\<lambda>ob. ''default''),
      GetName = oname,
      GetUID = oname,
      GetResourceVersion = (\<lambda>ob. ''1''),
      SchemeNew = (\<lambda>gvk. Inr (RList (Kind gvk) [])),
      asObjectList = (\<lambda>r. case r of RList k xs \<Rightarrow> Some (k, xs) | RItem ob \<Rightarrow> None),
      ClientList = (\<lambda>l ml. Inr (fst l, filter (\<lambda>ob. okind ob @ ''List'' = fst l \<and>
                                                     list_all (\<lambda>kv. kv \<in> set (olabels ob)) ml) cache)),
      ExtractList = (\<lambda>l. Inr (map RItem (snd l))),
      asObject = (\<lambda>r. case r of RList k xs \<Rightarrow> None | RItem ob \<Rightarrow> Some ob),
      parseSelector = (\<lambda>ob path. Inl ''no such field''),
      parseLabels = (\<lambda>ob labels. labels)\<rparr>"

definition owns :: "string \<Rightarrow> string \<Rightarrow> string \<Rightarrow> OwnershipRule" where
  "owns primaryAPIVersion primaryKind secondaryKind =
     \<lparr>Primary = \<lparr>APIVersion = primaryAPIVersion, TypeKind = primaryKind\<rparr>,
      OwnedResources =
        [\<lparr>Secondary = \<lparr>APIVersion = ''v1'', TypeKind = secondaryKind\<rparr>,
          Criteria = \<lparr>SelectorCriteria = None, LabelCriteria = Some [(''app'', ''x'')]\<rparr>\<rparr>]\<rparr>"

definition demo_rules :: "OwnershipRule list" where
  "demo_rules = [owns ''v1'' ''Cluster'' ''Pod'', owns ''v1'' ''Pod'' ''ConfigMap'',
                 owns ''apps/v1'' ''Cluster'' ''ConfigMap'']"

definition the_cluster :: demo_obj where
  "the_cluster = \<lparr>okind = ''Cluster'', oname = ''c'', olabels = []\<rparr>"

definition pod1 :: demo_obj where
  "pod1 = \<lparr>okind = ''Pod'', oname = ''p1'', olabels = [(''app'', ''x'')]\<rparr>"

definition pod2 :: demo_obj where
  "pod2 = \<lparr>okind = ''Pod'', oname = ''p2'', olabels = [(''app'', ''x'')]\<rparr>"

definition shared_cm :: demo_obj where
  "shared_cm = \<lparr>okind = ''ConfigMap'', oname = ''m'', olabels = [(''app'', ''x'')]\<rparr>"

definition demo_cache :: "demo_obj list" where
  "demo_cache = [the_cluster, pod1, pod2, shared_cm]"

definition demo_key :: "string \<Rightarrow> string \<Rightarrow> GVKNObjKey" where
  "demo_key kind name =
     \<lparr>KeyGVK = \<lparr>Group = [], Version = ''v1'', Kind = kind\<rparr>, ObjectKey = (''default'', name)\<rparr>"

text \<open>A pod that carries the label by which pods own pods: it owns itself.\<close>

definition self_rules :: "OwnershipRule list" where
  "self_rules = [owns ''v1'' ''Pod'' ''Pod'']"

definition demo_leaf :: "string \<Rightarrow> string \<Rightarrow> ObjectTreeNode list \<Rightarrow> ObjectTreeNode" where
  "demo_leaf kind name children =
     ObjectTreeNode
       \<lparr>RefAPIVersion = ''v1'', RefKind = kind, Namespace = ''default'', Name = name,
         UID = name, ResourceVersion = ''1''\<rparr> children"

definition demo_tree :: ObjectTreeNode where
  "demo_tree =
     demo_leaf ''Cluster'' ''c''
       [demo_leaf ''Pod'' ''p1'' [demo_leaf ''ConfigMap'' ''m'' []],
        demo_leaf ''Pod'' ''p2'' [demo_leaf ''ConfigMap'' ''m'' []]]"

definition demo_keys :: "GVKNObjKey set" where
  "demo_keys = {demo_key ''Cluster'' ''c'', demo_key ''Pod'' ''p1'', demo_key ''Pod'' ''p2'',
                demo_key ''ConfigMap'' ''m''}"

section \<open>Properties of the store\<close>

lemma has_edge_iff: "has_edge d a b \<longleftrightarrow> (a, b) \<in> set (edges d)"
  by (force simp: has_edge_def list_ex_iff)

lemma Connect_present:
  "(a, b) \<in> set (edges d) \<Longrightarrow> Connect (Some a) (Some b) d = (True, d)"
  by (simp add: Connect_def has_edge_iff)

lemma Connect_absent:
  "(a, b) \<notin> set (edges d) \<Longrightarrow>
   Connect (Some a) (Some b) d = (True, d\<lparr>edges := edges d @ [(a, b)]\<rparr>)"
  by (simp add: Connect_def has_edge_iff)

lemma Connect_nil: "Connect None to d = (False, d)" "Connect from None d = (False, d)"
  by (simp_all add: Connect_def split: option.splits)

lemma length_filter_pair:
  "length (filter (\<lambda>k. fst k = a \<and> snd k = b) xs) = count_list xs (a, b)"
  by (induction xs) auto

lemma count_distinct: "distinct xs \<Longrightarrow> count_list xs x = (if x \<in> set xs then 1 else 0)"
  by (induction xs) auto

text \<open>The empty store satisfies the invariant of the store and every mutator keeps it.\<close>

lemma store_inv_mutators:
  "store_inv NewDAG"
  "store_inv d \<Longrightarrow> store_inv (snd (AddVertex v d))"
  "store_inv d \<Longrightarrow> store_inv (snd (RemoveVertex v d))"
  "store_inv d \<Longrightarrow> store_inv (snd (AddEdge e d))"
  "store_inv d \<Longrightarrow> store_inv (snd (RemoveEdge e d))"
  "store_inv d \<Longrightarrow> store_inv (snd (Connect from to d))"
proof -
  show "store_inv NewDAG" by (simp add: store_inv_def NewDAG_def)
  show "store_inv d \<Longrightarrow> store_inv (snd (AddVertex v d))"
    by (cases v) (simp_all add: store_inv_def put_key_def)
  show "store_inv d \<Longrightarrow> store_inv (snd (RemoveVertex v d))"
    by (cases v) (simp_all add: store_inv_def)
  show "store_inv d \<Longrightarrow> store_inv (snd (AddEdge e d))"
    by (simp add: store_inv_def AddEdge_def has_edge_iff split: option.splits)
  show "store_inv d \<Longrightarrow> store_inv (snd (RemoveEdge e d))"
    by (simp add: store_inv_def RemoveEdge_def)
  show "store_inv d \<Longrightarrow> store_inv (snd (Connect from to d))"
    by (simp add: store_inv_def Connect_def has_edge_iff split: option.splits)
qed

text \<open>
  Claim C3. On a store in which no two edges share their endpoint pair (every store
  built by the mutators), two calls of \<open>Connect\<close> with the same non-nil endpoints both
  return \<open>true\<close>, the second changes nothing, and exactly one stored edge has that
  endpoint pair afterwards. With a nil argument \<open>Connect\<close> returns \<open>false\<close> and the store
  is the one it was given.
\<close>

theorem Connect_twice_one_edge:
  "(distinct (edges d) \<longrightarrow>
      (case Connect (Some a) (Some b) d of (r1, d1) \<Rightarrow>
         case Connect (Some a) (Some b) d1 of (r2, d2) \<Rightarrow>
           r1 \<and> r2 \<and> d2 = d1 \<and> vertices d2 = vertices d \<and> distinct (edges d2) \<and>
           length (filter (\<lambda>k. fst k = a \<and> snd k = b) (edges d2)) = 1)) \<and>
   Connect None to d = (False, d) \<and> Connect from None d = (False, d)"
proof (intro conjI impI)
  assume dist: "distinct (edges d)"
  show "case Connect (Some a) (Some b) d of (r1, d1) \<Rightarrow>
         case Connect (Some a) (Some b) d1 of (r2, d2) \<Rightarrow>
           r1 \<and> r2 \<and> d2 = d1 \<and> vertices d2 = vertices d \<and> distinct (edges d2) \<and>
           length (filter (\<lambda>k. fst k = a \<and> snd k = b) (edges d2)) = 1"
  proof (cases "(a, b) \<in> set (edges d)")
    case True
    then show ?thesis
      using dist by (simp add: Connect_present length_filter_pair count_distinct)
  next
    case False
    let ?d1 = "d\<lparr>edges := edges d @ [(a, b)]\<rparr>"
    have 1: "Connect (Some a) (Some b) d = (True, ?d1)" using False by (rule Connect_absent)
    have 2: "Connect (Some a) (Some b) ?d1 = (True, ?d1)" by (rule Connect_present) simp
    have 3: "distinct (edges ?d1)" using dist False by simp
    have 4: "count_list (edges ?d1) (a, b) = 1" using 3 by (subst count_distinct) simp_all
    show ?thesis using 3 4 by (simp add: 1 2 length_filter_pair del: distinct_append)
  qed
qed (rule Connect_nil)+

theorem Connect_twice_one_edge_witness:
  "distinct (edges \<lparr>vertices = [1::nat, 2], edges = [(2, 1)]\<rparr>) \<and>
   (case Connect (Some 1) (Some 2) \<lparr>vertices = [1::nat, 2], edges = [(2, 1)]\<rparr> of (r1, d1) \<Rightarrow>
      case Connect (Some 1) (Some 2) d1 of (r2, d2) \<Rightarrow>
        r1 \<and> r2 \<and> d2 = d1 \<and> edges d2 = [(2, 1), (1, 2)])"
  using Connect_twice_one_edge [of "\<lparr>vertices = [1::nat, 2], edges = [(2, 1)]\<rparr>" 1 2]
  by (simp add: Connect_def has_edge_def)

text \<open>
  Claim C4. After \<open>RemoveVertex\<close> of a non-nil vertex \<open>v\<close>, \<open>v\<close> is not a stored vertex
  and no stored edge has \<open>v\<close> as its \<open>From\<close> or its \<open>To\<close>; the other vertices and the
  edges that do not touch \<open>v\<close> stay. \<open>RemoveVertex(nil)\<close> returns \<open>true\<close> and the store is
  the one it was given.
\<close>

theorem RemoveVertex_cascades:
  "(case RemoveVertex (Some v) d of (r, d') \<Rightarrow>
      r \<and> v \<notin> set (vertices d') \<and> v \<notin> set (Vertices d') \<and>
      (\<forall>k \<in> set (edges d'). fst k \<noteq> v \<and> snd k \<noteq> v) \<and>
      set (vertices d') = set (vertices d) - {v} \<and>
      set (edges d') = {k \<in> set (edges d). fst k \<noteq> v \<and> snd k \<noteq> v}) \<and>
   RemoveVertex None d = (True, d)"
  by (auto simp: Vertices_def)

theorem RemoveVertex_cascades_witness:
  "(case RemoveVertex (Some (2::nat)) \<lparr>vertices = [1, 2, 3], edges = [(1, 2), (2, 3), (1, 3)]\<rparr> of
      (r, d') \<Rightarrow> r \<and> d' = \<lparr>vertices = [1, 3], edges = [(1, 3)]\<rparr> \<and>
                 (\<forall>k \<in> set (edges d'). fst k \<noteq> 2 \<and> snd k \<noteq> 2))"
  using RemoveVertex_cascades [of "2::nat" "\<lparr>vertices = [1, 2, 3], edges = [(1, 2), (2, 3), (1, 3)]\<rparr>"]
  by simp

lemma Root_alt:
  "Root d = (if length (filter (\<lambda>n. inAdj d n = []) (vertices d)) = 1
             then Some (hd (filter (\<lambda>n. inAdj d n = []) (vertices d))) else None)"
  unfolding Root_def Let_def by simp

lemma filter_single:
  assumes "distinct xs" "r \<in> set xs" "P r" "\<forall>x \<in> set xs. P x \<longrightarrow> x = r"
  shows "length (filter P xs) = 1 \<and> hd (filter P xs) = r"
proof -
  let ?rs = "filter P xs"
  have s: "set ?rs = {r}"
  proof
    show "set ?rs \<subseteq> {r}" using assms(4) by fastforce
    show "{r} \<subseteq> set ?rs" using assms(2,3) by simp
  qed
  have "distinct ?rs" using assms(1) by (rule distinct_filter)
  then have "card (set ?rs) = length ?rs" by (rule distinct_card)
  then have l: "length ?rs = 1" unfolding s by simp
  then have "?rs \<noteq> []" by (cases ?rs) simp_all
  then have "hd ?rs \<in> set ?rs" by (rule hd_in_set)
  then have "hd ?rs = r" unfolding s by simp
  with l show ?thesis by (rule_tac conjI)
qed

lemma Root_some:
  assumes "distinct (vertices d)" "r \<in> set (vertices d)" "inAdj d r = []"
    "\<forall>n \<in> set (vertices d). inAdj d n = [] \<longrightarrow> n = r"
  shows "Root d = Some r"
proof -
  have "length (filter (\<lambda>n. inAdj d n = []) (vertices d)) = 1 \<and>
        hd (filter (\<lambda>n. inAdj d n = []) (vertices d)) = r"
    using assms by (rule filter_single)
  then show ?thesis by (simp add: Root_alt)
qed

lemma Root_none_empty: "vertices d = [] \<Longrightarrow> Root d = None"
  by (simp add: Root_alt)

lemma Root_none_zero:
  assumes "\<forall>n \<in> set (vertices d). inAdj d n \<noteq> []"
  shows "Root d = None"
proof -
  have "filter (\<lambda>n. inAdj d n = []) (vertices d) = []"
    using assms by (simp add: filter_empty_conv)
  then show ?thesis by (simp add: Root_alt)
qed

lemma Root_none_two:
  assumes h: "a \<in> set (vertices d)" "b \<in> set (vertices d)" "a \<noteq> b"
    "inAdj d a = []" "inAdj d b = []"
  shows "Root d = None"
proof -
  let ?rs = "filter (\<lambda>n. inAdj d n = []) (vertices d)"
  have ab: "{a, b} \<subseteq> set ?rs" using h by simp
  have "card {a, b} \<le> card (set ?rs)" by (rule card_mono[OF _ ab]) simp
  moreover have "card {a, b} = 2" using h(3) by simp
  moreover have "card (set ?rs) \<le> length ?rs" by (rule card_length)
  ultimately have "length ?rs \<noteq> 1" by linarith
  then show "Root d = None" by (simp add: Root_alt)
qed

text \<open>
  Claim C5. When the vertex map (each key once) holds exactly one vertex without an
  incoming edge, \<open>Root\<close> returns it. \<open>Root\<close> returns \<open>nil\<close>, and no error, when the
  vertex map is empty, when every vertex has an incoming edge, and when two different
  vertices have none.
\<close>

theorem Root_unique_or_nil:
  "(distinct (vertices d) \<longrightarrow> r \<in> set (vertices d) \<longrightarrow> inAdj d r = [] \<longrightarrow>
      (\<forall>n \<in> set (vertices d). inAdj d n = [] \<longrightarrow> n = r) \<longrightarrow> Root d = Some r) \<and>
   (vertices d = [] \<longrightarrow> Root d = None) \<and>
   ((\<forall>n \<in> set (vertices d). inAdj d n \<noteq> []) \<longrightarrow> Root d = None) \<and>
   (a \<in> set (vertices d) \<longrightarrow> b \<in> set (vertices d) \<longrightarrow> a \<noteq> b \<longrightarrow>
      inAdj d a = [] \<longrightarrow> inAdj d b = [] \<longrightarrow> Root d = None)"
  using Root_some[of d r] Root_none_empty[of d] Root_none_zero[of d] Root_none_two[of a d b]
  by blast

theorem Root_unique_or_nil_witness:
  "Root \<lparr>vertices = [2::nat, 1, 3], edges = [(1, 2), (1, 3)]\<rparr> = Some 1 \<and>
   Root \<lparr>vertices = [] :: nat list, edges = [(1, 2)]\<rparr> = None \<and>
   Root \<lparr>vertices = [1::nat, 2], edges = [(1, 2), (2, 1)]\<rparr> = None \<and>
   Root \<lparr>vertices = [1::nat, 2, 3], edges = [(1, 3)]\<rparr> = None"
  using Root_unique_or_nil [of "\<lparr>vertices = [2::nat, 1, 3], edges = [(1, 2), (1, 3)]\<rparr>" 1]
    Root_unique_or_nil [of "\<lparr>vertices = [] :: nat list, edges = [(1, 2)]\<rparr>"]
    Root_unique_or_nil [of "\<lparr>vertices = [1::nat, 2], edges = [(1, 2), (2, 1)]\<rparr>"]
    Root_unique_or_nil [of "\<lparr>vertices = [1::nat, 2, 3], edges = [(1, 3)]\<rparr>" 0 1 2]
  by (simp add: inAdj_def)

text \<open>
  Claim C10. \<open>Connect\<close> and \<open>AddEdge\<close> leave the vertex map as it is, whatever their
  arguments. So a successful \<open>Connect(A, B)\<close> on a store that holds neither \<open>A\<close> nor
  \<open>B\<close> returns \<open>true\<close> and stores the edge, and \<open>Vertices()\<close> still holds neither: the
  endpoints of the stored edge are not stored vertices until \<open>AddVertex\<close> adds them.
\<close>

theorem Connect_AddEdge_keep_vertices:
  "vertices (snd (Connect from to d)) = vertices d \<and>
   vertices (snd (AddEdge e d)) = vertices d \<and>
   (a \<notin> set (vertices d) \<longrightarrow> b \<notin> set (vertices d) \<longrightarrow>
      (case Connect (Some a) (Some b) d of (r, d') \<Rightarrow>
         r \<and> a \<notin> set (Vertices d') \<and> b \<notin> set (Vertices d') \<and> (a, b) \<in> set (edges d') \<and>
         (case AddVertex (Some a) d' of (r', d'') \<Rightarrow> r' \<and> a \<in> set (Vertices d''))))"
proof (intro conjI impI)
  show "vertices (snd (Connect from to d)) = vertices d"
    by (simp add: Connect_def split: option.splits)
  show "vertices (snd (AddEdge e d)) = vertices d"
    by (simp add: AddEdge_def split: option.splits)
  show "case Connect (Some a) (Some b) d of (r, d') \<Rightarrow>
         r \<and> a \<notin> set (Vertices d') \<and> b \<notin> set (Vertices d') \<and> (a, b) \<in> set (edges d') \<and>
         (case AddVertex (Some a) d' of (r', d'') \<Rightarrow> r' \<and> a \<in> set (Vertices d''))"
    if "a \<notin> set (vertices d)" "b \<notin> set (vertices d)"
    using that by (simp add: Connect_def has_edge_iff Vertices_def put_key_def)
qed

theorem Connect_AddEdge_keep_vertices_witness:
  "(1::nat) \<notin> set (vertices NewDAG) \<and> (2::nat) \<notin> set (vertices NewDAG) \<and>
   Connect (Some 1) (Some 2) NewDAG = (True, \<lparr>vertices = [], edges = [(1::nat, 2)]\<rparr>) \<and>
   Vertices (snd (Connect (Some (1::nat)) (Some 2) NewDAG)) = []"
  using Connect_AddEdge_keep_vertices [of "Some (1::nat)" "Some 2" NewDAG "(None, None)" 1 2]
  by (simp add: Connect_def has_edge_def NewDAG_def Vertices_def)

section \<open>The cycle walk of validate\<close>

lemma set_outAdj: "set (outAdj d v) = {w. (v, w) \<in> edge_rel d}"
  by (force simp: outAdj_def edge_rel_def)

lemma set_inAdj: "set (inAdj d v) = {u. (u, v) \<in> edge_rel d}"
  by (force simp: inAdj_def edge_rel_def)

lemma cwe_Nil: "cycle_walk_each d [] st = Some (Inr st)"
  by (subst cycle_walk_each.simps) simp

lemma cwe_Cons:
  "cycle_walk_each d (v # rest) st =
     (if walked st v then cycle_walk_each d rest st
      else if marked st v then Some (Inl CycleFound)
      else Option.bind
             (cycle_walk_each d (outAdj d v) (st\<lparr>marked := (marked st)(v := True)\<rparr>))
             (\<lambda>r. case r of
                     Inl err \<Rightarrow> Some (Inl err)
                   | Inr st' \<Rightarrow>
                       cycle_walk_each d rest
                         (st'\<lparr>marked := (marked st')(v := False),
                              walked := (walked st')(v := True)\<rparr>)))"
  by (subst cycle_walk_each.simps) simp

lemma cwe_post_aux:
  "cycle_walk_each d vs st = Some y \<Longrightarrow> \<forall>st'. y = Inr st' \<longrightarrow> cw_post vs st st'"
proof (induction rule: cycle_walk_each.raw_induct[rotated, consumes 1])
  case (1 f d vs st y)
  show ?case
  proof (cases vs)
    case Nil
    with 1(2) show ?thesis by (auto simp: cw_post_def)
  next
    case (Cons v rest)
    show ?thesis
    proof (cases "walked st v")
      case True
      with 1(2) Cons have "f d rest st = Some y" by simp
      from 1(1)[OF this] True Cons show ?thesis by (auto simp: cw_post_def)
    next
      case nw: False
      show ?thesis
      proof (cases "marked st v")
        case True
        with 1(2) Cons nw show ?thesis by auto
      next
        case nm: False
        let ?st1 = "st\<lparr>marked := (marked st)(v := True)\<rparr>"
        from 1(2) Cons nw nm obtain r1 where
          r1: "f d (outAdj d v) ?st1 = Some r1" and
          k: "(case r1 of Inl err \<Rightarrow> Some (Inl err)
               | Inr st' \<Rightarrow> f d rest (st'\<lparr>marked := (marked st')(v := False),
                                          walked := (walked st')(v := True)\<rparr>)) = Some y"
          by (auto simp: bind_eq_Some_conv)
        show ?thesis
        proof (cases r1)
          case (Inl e)
          with k show ?thesis by auto
        next
          case (Inr s1)
          let ?st2 = "s1\<lparr>marked := (marked s1)(v := False), walked := (walked s1)(v := True)\<rparr>"
          from k Inr have k2: "f d rest ?st2 = Some y" by simp
          from 1(1)[OF r1] Inr have p1: "cw_post (outAdj d v) ?st1 s1" by simp
          have m2: "marked ?st2 = marked st"
            using p1 nm by (auto simp: cw_post_def fun_eq_iff)
          show ?thesis
          proof (intro allI impI)
            fix st' assume "y = Inr st'"
            with 1(1)[OF k2] have p2: "cw_post rest ?st2 st'" by simp
            show "cw_post vs st st'"
              using p1 p2 m2 Cons unfolding cw_post_def by auto
          qed
        qed
      qed
    qed
  qed
qed

lemma cwe_post: "cycle_walk_each d vs st = Some (Inr st') \<Longrightarrow> cw_post vs st st'"
  using cwe_post_aux by blast

lemma unvisited_less:
  assumes "finite U" "v \<in> U" "\<not> walked st v" "\<not> marked st v"
    "\<forall>x. x \<noteq> v \<longrightarrow> walked st x \<or> marked st x \<longrightarrow> walked st' x \<or> marked st' x"
    "walked st' v \<or> marked st' v"
  shows "card (unvisited U st') < card (unvisited U st)"
proof (rule psubset_card_mono)
  show "finite (unvisited U st)" using assms(1) by (simp add: unvisited_def)
  have "v \<in> unvisited U st" using assms(2,3,4) by (simp add: unvisited_def)
  moreover have "v \<notin> unvisited U st'" using assms(6) by (auto simp: unvisited_def)
  moreover have "unvisited U st' \<subseteq> unvisited U st"
    unfolding unvisited_def using assms(3,4,5) by auto
  ultimately show "unvisited U st' \<subset> unvisited U st" by blast
qed

lemma cw_induct [consumes 3, case_names Nil Walked Marked Fresh]:
  assumes fin: "finite U" and clo: "\<forall>v. set (outAdj d v) \<subseteq> U" and sub: "set vs \<subseteq> U"
    and nil: "\<And>st. P [] st"
    and wlk: "\<And>v rest st. walked st v \<Longrightarrow> P rest st \<Longrightarrow> P (v # rest) st"
    and mrk: "\<And>v rest st. \<not> walked st v \<Longrightarrow> marked st v \<Longrightarrow> P (v # rest) st"
    and fre: "\<And>v rest st. \<not> walked st v \<Longrightarrow> \<not> marked st v \<Longrightarrow>
                P (outAdj d v) (st\<lparr>marked := (marked st)(v := True)\<rparr>) \<Longrightarrow>
                (\<And>s1. cycle_walk_each d (outAdj d v) (st\<lparr>marked := (marked st)(v := True)\<rparr>)
                         = Some (Inr s1) \<Longrightarrow>
                       P rest (s1\<lparr>marked := (marked s1)(v := False),
                                  walked := (walked s1)(v := True)\<rparr>)) \<Longrightarrow>
                P (v # rest) st"
  shows "P vs (st :: 'v cycle_state)"
proof -
  have "\<forall>vs st. card (unvisited U st) = n \<longrightarrow> set vs \<subseteq> U \<longrightarrow> P vs st" for n
  proof (induction n rule: less_induct)
    case (less n)
    show ?case
    proof (intro allI)
      fix vs :: "'v list" and st :: "'v cycle_state"
      show "card (unvisited U st) = n \<longrightarrow> set vs \<subseteq> U \<longrightarrow> P vs st"
      proof (induction vs)
        case Nil
        show ?case by (simp add: nil)
      next
        case (Cons v rest)
        show ?case
        proof (intro impI)
          assume n: "card (unvisited U st) = n" and s: "set (v # rest) \<subseteq> U"
          then have rest: "P rest st" using Cons by simp
          show "P (v # rest) st"
          proof (cases "walked st v")
            case True
            then show ?thesis using rest by (rule wlk)
          next
            case nw: False
            show ?thesis
            proof (cases "marked st v")
              case True
              with nw show ?thesis by (rule mrk)
            next
              case nm: False
              let ?st1 = "st\<lparr>marked := (marked st)(v := True)\<rparr>"
              have vU: "v \<in> U" using s by simp
              have l1: "card (unvisited U ?st1) < n"
                unfolding n[symmetric] by (rule unvisited_less[OF fin vU nw nm]) simp_all
              have a: "P (outAdj d v) ?st1"
                using less[OF l1] clo by blast
              have b: "P rest (s1\<lparr>marked := (marked s1)(v := False), walked := (walked s1)(v := True)\<rparr>)"
                if r: "cycle_walk_each d (outAdj d v) ?st1 = Some (Inr s1)" for s1
              proof -
                let ?st2 = "s1\<lparr>marked := (marked s1)(v := False), walked := (walked s1)(v := True)\<rparr>"
                have p: "cw_post (outAdj d v) ?st1 s1" using r by (rule cwe_post)
                have l2: "card (unvisited U ?st2) < n"
                  unfolding n[symmetric]
                  by (rule unvisited_less[OF fin vU nw nm]) (use p in \<open>auto simp: cw_post_def\<close>)
                show ?thesis using less[OF l2] s by simp
              qed
              show ?thesis using nw nm a b by (rule fre)
            qed
          qed
        qed
      qed
    qed
  qed
  then show ?thesis using sub by blast
qed

lemma cwe_total:
  assumes "finite U" "\<forall>v. set (outAdj d v) \<subseteq> U" "set vs \<subseteq> U"
  shows "\<exists>r. cycle_walk_each d vs st = Some r"
  using assms
proof (induct vs st rule: cw_induct)
  case (Nil st)
  then show ?case by (simp add: cwe_Nil)
next
  case (Walked v rest st)
  then show ?case by (simp add: cwe_Cons)
next
  case (Marked v rest st)
  then show ?case by (simp add: cwe_Cons)
next
  case (Fresh v rest st)
  from Fresh(3) obtain r1 where r1: "cycle_walk_each d (outAdj d v) (st\<lparr>marked := (marked st)(v := True)\<rparr>) = Some r1"
    by blast
  show ?case
  proof (cases r1)
    case (Inl e)
    with r1 Fresh(1,2) show ?thesis by (simp add: cwe_Cons)
  next
    case (Inr s1)
    with r1 Fresh(4)[of s1] Fresh(1,2) show ?thesis by (simp add: cwe_Cons)
  qed
qed

lemma reach_set_props:
  "finite (reach_set d)" "\<forall>v. set (outAdj d v) \<subseteq> reach_set d" "set (vertices d) \<subseteq> reach_set d"
  by (auto simp: reach_set_def outAdj_def)

lemma cwe_acyclic_ok_aux:
  assumes "finite U" "\<forall>v. set (outAdj d v) \<subseteq> U" "set vs \<subseteq> U"
    and ac: "acyclic (edge_rel d)"
  shows "(\<forall>m v. marked st m \<longrightarrow> v \<in> set vs \<longrightarrow> (m, v) \<in> (edge_rel d)\<^sup>+) \<longrightarrow>
         (\<exists>st'. cycle_walk_each d vs st = Some (Inr st'))"
  using assms(1,2,3)
proof (induct vs st rule: cw_induct)
  case (Nil st)
  show ?case by (simp add: cwe_Nil)
next
  case (Walked v rest st)
  then show ?case by (simp add: cwe_Cons)
next
  case (Marked v rest st)
  show ?case
  proof
    assume "\<forall>m va. marked st m \<longrightarrow> va \<in> set (v # rest) \<longrightarrow> (m, va) \<in> (edge_rel d)\<^sup>+"
    with Marked(2) have "(v, v) \<in> (edge_rel d)\<^sup>+" by simp
    with ac show "\<exists>st'. cycle_walk_each d (v # rest) st = Some (Inr st')"
      by (simp add: acyclic_def)
  qed
next
  case (Fresh v rest st)
  let ?st1 = "st\<lparr>marked := (marked st)(v := True)\<rparr>"
  show ?case
  proof
    assume pre: "\<forall>m va. marked st m \<longrightarrow> va \<in> set (v # rest) \<longrightarrow> (m, va) \<in> (edge_rel d)\<^sup>+"
    have "\<forall>m w. marked ?st1 m \<longrightarrow> w \<in> set (outAdj d v) \<longrightarrow> (m, w) \<in> (edge_rel d)\<^sup>+"
    proof (intro allI impI)
      fix m w assume m: "marked ?st1 m" and w: "w \<in> set (outAdj d v)"
      from w have e: "(v, w) \<in> edge_rel d" by (simp add: set_outAdj)
      show "(m, w) \<in> (edge_rel d)\<^sup>+"
      proof (cases "m = v")
        case True with e show ?thesis by blast
      next
        case False
        with m have "marked st m" by simp
        with pre have "(m, v) \<in> (edge_rel d)\<^sup>+" by simp
        then show ?thesis using e by (rule trancl_into_trancl)
      qed
    qed
    with Fresh(3) obtain s1 where s1: "cycle_walk_each d (outAdj d v) ?st1 = Some (Inr s1)"
      by blast
    let ?st2 = "s1\<lparr>marked := (marked s1)(v := False), walked := (walked s1)(v := True)\<rparr>"
    have "cw_post (outAdj d v) ?st1 s1" using s1 by (rule cwe_post)
    then have "marked ?st2 = marked st" using Fresh(2) by (auto simp: cw_post_def fun_eq_iff)
    with pre have "\<forall>m va. marked ?st2 m \<longrightarrow> va \<in> set rest \<longrightarrow> (m, va) \<in> (edge_rel d)\<^sup>+"
      by simp
    with Fresh(4)[OF s1] obtain st' where "cycle_walk_each d rest ?st2 = Some (Inr st')"
      by blast
    with s1 Fresh(1,2) show "\<exists>st'. cycle_walk_each d (v # rest) st = Some (Inr st')"
      by (simp add: cwe_Cons)
  qed
qed

lemma closed_walked_rtrancl:
  assumes "(u, x) \<in> (edge_rel d)\<^sup>*" "closed_walked d st" "walked st u"
  shows "walked st x"
  using assms by (induction rule: rtrancl_induct) (auto simp: closed_walked_def)

lemma closed_walked_finish:
  assumes c: "closed_walked d s1" and a: "\<forall>w \<in> set (outAdj d v). walked s1 w"
  shows "closed_walked d (s1\<lparr>marked := m, walked := (walked s1)(v := True)\<rparr>)"
proof (cases "walked s1 v")
  case True
  then have "(walked s1)(v := True) = walked s1" by (auto simp: fun_eq_iff)
  with c show ?thesis by (simp add: closed_walked_def)
next
  case False
  have nocyc: "(v, v) \<notin> (edge_rel d)\<^sup>+"
  proof
    assume "(v, v) \<in> (edge_rel d)\<^sup>+"
    then obtain w where "(v, w) \<in> edge_rel d" "(w, v) \<in> (edge_rel d)\<^sup>*"
      by (meson tranclD)
    moreover from this a have "walked s1 w" by (simp add: set_outAdj)
    ultimately have "walked s1 v" using c closed_walked_rtrancl by metis
    with False show False by simp
  qed
  show ?thesis
    unfolding closed_walked_def
  proof (intro conjI allI impI)
    fix u w
    assume u: "walked (s1\<lparr>marked := m, walked := (walked s1)(v := True)\<rparr>) u"
      and e: "(u, w) \<in> edge_rel d"
    have "walked s1 w"
    proof (cases "u = v")
      case True with e a show ?thesis by (simp add: set_outAdj)
    next
      case False with u e c show ?thesis by (auto simp: closed_walked_def)
    qed
    then show "walked (s1\<lparr>marked := m, walked := (walked s1)(v := True)\<rparr>) w" by simp
  next
    fix u
    assume u: "walked (s1\<lparr>marked := m, walked := (walked s1)(v := True)\<rparr>) u"
    show "(u, u) \<notin> (edge_rel d)\<^sup>+"
    proof (cases "u = v")
      case True with nocyc show ?thesis by simp
    next
      case False with u c show ?thesis by (auto simp: closed_walked_def)
    qed
  qed
qed

lemma cwe_closed_aux:
  assumes "finite U" "\<forall>v. set (outAdj d v) \<subseteq> U" "set vs \<subseteq> U"
  shows "closed_walked d st \<longrightarrow>
         (\<forall>st'. cycle_walk_each d vs st = Some (Inr st') \<longrightarrow> closed_walked d st')"
  using assms
proof (induct vs st rule: cw_induct)
  case (Nil st)
  show ?case by (simp add: cwe_Nil)
next
  case (Walked v rest st)
  then show ?case by (simp add: cwe_Cons)
next
  case (Marked v rest st)
  then show ?case by (simp add: cwe_Cons)
next
  case (Fresh v rest st)
  let ?st1 = "st\<lparr>marked := (marked st)(v := True)\<rparr>"
  show ?case
  proof (intro impI allI)
    fix st'
    assume c: "closed_walked d st" and r: "cycle_walk_each d (v # rest) st = Some (Inr st')"
    from r Fresh(1,2) obtain r1 where r1: "cycle_walk_each d (outAdj d v) ?st1 = Some r1"
      and k: "(case r1 of Inl err \<Rightarrow> Some (Inl err)
               | Inr s1 \<Rightarrow> cycle_walk_each d rest
                    (s1\<lparr>marked := (marked s1)(v := False), walked := (walked s1)(v := True)\<rparr>))
              = Some (Inr st')"
      by (auto simp: cwe_Cons bind_eq_Some_conv)
    from k obtain s1 where s1: "r1 = Inr s1" by (cases r1) auto
    let ?st2 = "s1\<lparr>marked := (marked s1)(v := False), walked := (walked s1)(v := True)\<rparr>"
    from k s1 have k2: "cycle_walk_each d rest ?st2 = Some (Inr st')" by simp
    from r1 s1 have r1': "cycle_walk_each d (outAdj d v) ?st1 = Some (Inr s1)" by simp
    have "closed_walked d ?st1" using c by (simp add: closed_walked_def)
    with Fresh(3) r1' have c1: "closed_walked d s1" by blast
    have "cw_post (outAdj d v) ?st1 s1" using r1' by (rule cwe_post)
    then have "\<forall>w \<in> set (outAdj d v). walked s1 w" by (simp add: cw_post_def)
    with c1 have "closed_walked d ?st2" by (rule closed_walked_finish)
    with Fresh(4)[OF r1'] k2 show "closed_walked d st'" by blast
  qed
qed

lemma validate_total: "\<exists>r. validate d = Some r"
proof -
  obtain r where "cycle_walk_each d (vertices d) \<lparr>walked = (\<lambda>v. False), marked = (\<lambda>v. False)\<rparr> = Some r"
    using cwe_total[OF reach_set_props] by blast
  then show ?thesis
    by (simp add: validate_def split: option.splits)
qed

lemma validate_ok_iff:
  "validate d = Some None \<longleftrightarrow>
     Root d \<noteq> None \<and> find (\<lambda>e. fst e = snd e) (edges d) = None \<and>
     (\<exists>st'. cycle_walk_each d (vertices d) \<lparr>walked = (\<lambda>v. False), marked = (\<lambda>v. False)\<rparr> = Some (Inr st'))"
proof (cases "Root d")
  case None
  then show ?thesis by (simp add: validate_def)
next
  case (Some root)
  show ?thesis
  proof (cases "find (\<lambda>e. fst e = snd e) (edges d)")
    case (Some e)
    with \<open>Root d = Some root\<close> show ?thesis by (simp add: validate_def)
  next
    case None
    show ?thesis
    proof (cases "cycle_walk_each d (vertices d) \<lparr>walked = (\<lambda>v. False), marked = (\<lambda>v. False)\<rparr>")
      case None
      with \<open>Root d = Some root\<close> \<open>find _ _ = None\<close> show ?thesis by (simp add: validate_def)
    next
      case (Some r)
      with \<open>Root d = Some root\<close> \<open>find _ _ = None\<close> show ?thesis
        by (cases r) (simp_all add: validate_def)
    qed
  qed
qed

lemma validate_ok_no_cycle:
  assumes "validate d = Some None" "v \<in> set (vertices d)"
  shows "(v, v) \<notin> (edge_rel d)\<^sup>+"
proof -
  let ?st0 = "\<lparr>walked = (\<lambda>v. False), marked = (\<lambda>v. False)\<rparr> :: 'a cycle_state"
  from assms(1) obtain st' where r: "cycle_walk_each d (vertices d) ?st0 = Some (Inr st')"
    by (auto simp: validate_ok_iff)
  have "closed_walked d ?st0" by (simp add: closed_walked_def)
  with cwe_closed_aux[OF reach_set_props, of d ?st0] r have c: "closed_walked d st'" by blast
  have "cw_post (vertices d) ?st0 st'" using r by (rule cwe_post)
  with assms(2) have "walked st' v" by (simp add: cw_post_def)
  with c show ?thesis by (simp add: closed_walked_def)
qed

lemma validate_sound:
  assumes "Root d \<noteq> None" "acyclic (edge_rel d)"
  shows "validate d = Some None"
proof -
  let ?st0 = "\<lparr>walked = (\<lambda>v. False), marked = (\<lambda>v. False)\<rparr> :: 'a cycle_state"
  have "\<forall>e \<in> set (edges d). fst e \<noteq> snd e"
  proof
    fix e assume "e \<in> set (edges d)"
    then have "(fst e, snd e) \<in> edge_rel d" by (simp add: edge_rel_def)
    then have "fst e = snd e \<Longrightarrow> (fst e, fst e) \<in> (edge_rel d)\<^sup>+" by auto
    with assms(2) show "fst e \<noteq> snd e" unfolding acyclic_def by blast
  qed
  then have f: "find (\<lambda>e. fst e = snd e) (edges d) = None"
    unfolding find_None_iff by blast
  have "\<exists>st'. cycle_walk_each d (vertices d) ?st0 = Some (Inr st')"
    using cwe_acyclic_ok_aux[OF reach_set_props assms(2), where st = ?st0] by simp
  with assms(1) f show ?thesis by (simp add: validate_ok_iff)
qed

section \<open>The walk of topologicalOrder\<close>

lemma before_append: "before u v xs \<Longrightarrow> before u v (xs @ ys)"
  by (induction xs) auto

lemma before_snoc: "u \<in> set xs \<Longrightarrow> before u v (xs @ [v])"
  by (induction xs) auto

lemma before_iff_index:
  "before u v xs \<longleftrightarrow> (\<exists>i j. i < j \<and> j < length xs \<and> xs ! i = u \<and> xs ! j = v)"
proof (induction xs)
  case Nil
  show ?case by simp
next
  case (Cons x xs)
  show ?case
  proof
    assume "before u v (x # xs)"
    then consider "x = u" "v \<in> set xs" | "before u v xs" by auto
    then show "\<exists>i j. i < j \<and> j < length (x # xs) \<and> (x # xs) ! i = u \<and> (x # xs) ! j = v"
    proof cases
      case 1
      then obtain k where "k < length xs" "xs ! k = v" by (auto simp: in_set_conv_nth)
      with 1 have "0 < Suc k \<and> Suc k < length (x # xs) \<and> (x # xs) ! 0 = u \<and> (x # xs) ! Suc k = v"
        by simp
      then show ?thesis by blast
    next
      case 2
      with Cons obtain i j where "i < j" "j < length xs" "xs ! i = u" "xs ! j = v" by blast
      then have "Suc i < Suc j \<and> Suc j < length (x # xs) \<and> (x # xs) ! Suc i = u \<and> (x # xs) ! Suc j = v"
        by simp
      then show ?thesis by blast
    qed
  next
    assume "\<exists>i j. i < j \<and> j < length (x # xs) \<and> (x # xs) ! i = u \<and> (x # xs) ! j = v"
    then obtain i j where ij: "i < j" "j < length (x # xs)" "(x # xs) ! i = u" "(x # xs) ! j = v"
      by blast
    then obtain j' where j': "j = Suc j'" by (cases j) auto
    show "before u v (x # xs)"
    proof (cases i)
      case 0
      with ij j' have "x = u" "v \<in> set xs" by auto
      then show ?thesis by simp
    next
      case (Suc i')
      with ij j' have "i' < j' \<and> j' < length xs \<and> xs ! i' = u \<and> xs ! j' = v" by simp
      with Cons have "before u v xs" by blast
      then show ?thesis by simp
    qed
  qed
qed

lemma before_distinct_asym:
  assumes "distinct xs" "before u v xs"
  shows "\<not> before v u xs \<and> u \<noteq> v"
proof -
  from assms(2) obtain i j where ij: "i < j" "j < length xs" "xs ! i = u" "xs ! j = v"
    by (auto simp: before_iff_index)
  have uv: "u \<noteq> v" using ij assms(1) by (auto simp: distinct_conv_nth)
  have "\<not> before v u xs"
  proof
    assume "before v u xs"
    then obtain k l where kl: "k < l" "l < length xs" "xs ! k = v" "xs ! l = u"
      by (auto simp: before_iff_index)
    have "k = j" using kl ij assms(1) nth_eq_iff_index_eq[of xs k j] by simp
    moreover have "l = i" using kl ij assms(1) nth_eq_iff_index_eq[of xs l i] by simp
    ultimately show False using kl ij by simp
  qed
  with uv show ?thesis by simp
qed

lemma adj_rel_eq: "adj_rel d reverse = (if reverse then (edge_rel d)\<inverse> else edge_rel d)"
  by (auto simp: adj_rel_def adjacent_def set_outAdj set_inAdj)

lemma wf_adj_rel: "acyclic (edge_rel d) \<Longrightarrow> wf (adj_rel d reverse)"
  by (simp add: adj_rel_eq edge_rel_def finite_acyclic_wf finite_acyclic_wf_converse)

lemma adj_list_induct [consumes 1, case_names Nil Cons]:
  assumes w: "wf {(u, v). u \<in> set (adj v)}"
    and nil: "Q []"
    and cons: "\<And>v rest. Q rest \<Longrightarrow> Q (adj v) \<Longrightarrow> Q (v # rest)"
  shows "Q vs"
proof -
  let ?R = "{(u, v). u \<in> set (adj v)}"
  have "\<forall>vs. mset vs = M \<longrightarrow> Q vs" for M
  proof (induction M rule: wf_induct_rule[OF wf_mult[OF w]])
    case (1 M)
    show ?case
    proof (intro allI impI)
      fix vs :: "'a list" assume m: "mset vs = M"
      show "Q vs"
      proof (cases vs)
        case Nil
        then show ?thesis by (simp add: nil)
      next
        case (Cons v rest)
        have "(mset rest + {#}, mset rest + {#v#}) \<in> mult ?R"
          by (rule one_step_implies_mult) simp_all
        then have "(mset rest, M) \<in> mult ?R" using m Cons by simp
        then have a: "Q rest" using 1 by blast
        have "({#} + mset (adj v), {#} + mset (v # rest)) \<in> mult ?R"
          by (rule one_step_implies_mult) auto
        then have "(mset (adj v), M) \<in> mult ?R" using m Cons by simp
        then have b: "Q (adj v)" using 1 by blast
        from a b show ?thesis unfolding Cons by (rule cons)
      qed
    qed
  qed
  then show ?thesis by blast
qed

lemma twe_Nil: "topo_walk_each d reverse [] st = Some st"
  by (subst topo_walk_each.simps) simp

lemma twe_Cons:
  "topo_walk_each d reverse (v # rest) st =
     (if seen st v then topo_walk_each d reverse rest st
      else Option.bind (topo_walk_each d reverse (adjacent d reverse v) st)
             (\<lambda>st'. topo_walk_each d reverse rest
                       (st'\<lparr>seen := (seen st')(v := True), orders := orders st' @ [v]\<rparr>)))"
  by (subst topo_walk_each.simps) simp

lemma twe_total:
  assumes "wf (adj_rel d reverse)"
  shows "\<forall>st. \<exists>st'. topo_walk_each d reverse vs st = Some st'"
  using assms unfolding adj_rel_def
proof (induct vs rule: adj_list_induct)
  case Nil
  show ?case by (simp add: twe_Nil)
next
  case (Cons v rest)
  show ?case
  proof
    fix st
    show "\<exists>st'. topo_walk_each d reverse (v # rest) st = Some st'"
    proof (cases "seen st v")
      case True
      with Cons(1) show ?thesis by (simp add: twe_Cons)
    next
      case False
      from Cons(2) obtain s1 where "topo_walk_each d reverse (adjacent d reverse v) st = Some s1"
        by blast
      with Cons(1) False show ?thesis by (simp add: twe_Cons)
    qed
  qed
qed

lemma topo_inv_finish:
  assumes i: "topo_inv d reverse s1" and a: "\<forall>u \<in> set (adjacent d reverse v). seen s1 u"
    and n: "\<not> seen s1 v"
  shows "topo_inv d reverse (s1\<lparr>seen := (seen s1)(v := True), orders := orders s1 @ [v]\<rparr>)"
  unfolding topo_inv_def
proof (intro conjI allI ballI)
  let ?s2 = "s1\<lparr>seen := (seen s1)(v := True), orders := orders s1 @ [v]\<rparr>"
  fix x
  show "seen ?s2 x \<longleftrightarrow> x \<in> set (orders ?s2)" using i by (auto simp: topo_inv_def)
next
  show "distinct (orders (s1\<lparr>seen := (seen s1)(v := True), orders := orders s1 @ [v]\<rparr>))"
    using i n by (auto simp: topo_inv_def)
next
  let ?s2 = "s1\<lparr>seen := (seen s1)(v := True), orders := orders s1 @ [v]\<rparr>"
  fix x u assume x: "x \<in> set (orders ?s2)" and u: "u \<in> set (adjacent d reverse x)"
  show "before u x (orders ?s2)"
  proof (cases "x \<in> set (orders s1)")
    case True
    with i u have "before u x (orders s1)" by (auto simp: topo_inv_def)
    then show ?thesis by (simp add: before_append)
  next
    case False
    with x have xv: "x = v" by simp
    with a u have "seen s1 u" by simp
    with i have "u \<in> set (orders s1)" by (simp add: topo_inv_def)
    then show ?thesis using xv by (simp add: before_snoc)
  qed
qed

lemma twe_post:
  assumes w: "wf (adj_rel d reverse)"
  shows "\<forall>st st'. topo_inv d reverse st \<longrightarrow> topo_walk_each d reverse vs st = Some st' \<longrightarrow>
           topo_post d reverse vs st st'"
  using w unfolding adj_rel_def
proof (induct vs rule: adj_list_induct)
  case Nil
  show ?case by (simp add: twe_Nil topo_post_def)
next
  case (Cons v rest)
  let ?R = "adj_rel d reverse"
  show ?case
  proof (intro allI impI)
    fix st st'
    assume i: "topo_inv d reverse st" and r: "topo_walk_each d reverse (v # rest) st = Some st'"
    show "topo_post d reverse (v # rest) st st'"
    proof (cases "seen st v")
      case True
      with r have "topo_walk_each d reverse rest st = Some st'" by (simp add: twe_Cons)
      with Cons(1) i have "topo_post d reverse rest st st'" by blast
      with True show ?thesis unfolding topo_post_def by auto
    next
      case False
      with r obtain s1 where
        r1: "topo_walk_each d reverse (adjacent d reverse v) st = Some s1" and
        r2: "topo_walk_each d reverse rest
               (s1\<lparr>seen := (seen s1)(v := True), orders := orders s1 @ [v]\<rparr>) = Some st'"
        by (auto simp: twe_Cons bind_eq_Some_conv)
      let ?s2 = "s1\<lparr>seen := (seen s1)(v := True), orders := orders s1 @ [v]\<rparr>"
      from Cons(2) i r1 have p1: "topo_post d reverse (adjacent d reverse v) st s1" by blast
      have nv: "\<not> seen s1 v"
      proof
        assume "seen s1 v"
        with p1 False obtain u where "u \<in> set (adjacent d reverse v)" "(v, u) \<in> ?R\<^sup>*"
          unfolding topo_post_def by blast
        then have "(v, u) \<in> ?R\<^sup>*" "(u, v) \<in> ?R" by (simp_all add: adj_rel_def)
        then have "(v, v) \<in> ?R\<^sup>+" by (rule rtrancl_into_trancl1)
        with w show False using wf_acyclic acyclic_def by metis
      qed
      have i2: "topo_inv d reverse ?s2"
        using p1 nv by (intro topo_inv_finish) (simp_all add: topo_post_def)
      with Cons(1) r2 have p2: "topo_post d reverse rest ?s2 st'" by blast
      show ?thesis
        unfolding topo_post_def
      proof (intro conjI allI ballI impI)
        show "topo_inv d reverse st'" using p2 by (simp add: topo_post_def)
      next
        fix x assume "seen st x"
        with p1 have "seen ?s2 x" by (simp add: topo_post_def)
        with p2 show "seen st' x" by (simp add: topo_post_def)
      next
        fix x assume "x \<in> set (v # rest)"
        moreover have "seen ?s2 v" by simp
        ultimately show "seen st' x" using p2 unfolding topo_post_def by auto
      next
        fix x assume "seen st' x"
        with p2 consider "seen ?s2 x" | "\<exists>y \<in> set rest. (x, y) \<in> ?R\<^sup>*"
          unfolding topo_post_def by blast
        then show "seen st x \<or> (\<exists>y \<in> set (v # rest). (x, y) \<in> ?R\<^sup>*)"
        proof cases
          case 1
          show ?thesis
          proof (cases "x = v")
            case True then show ?thesis by auto
          next
            case False
            with 1 have "seen s1 x" by simp
            with p1 consider "seen st x" | "\<exists>u \<in> set (adjacent d reverse v). (x, u) \<in> ?R\<^sup>*"
              unfolding topo_post_def by blast
            then show ?thesis
            proof cases
              case 1 then show ?thesis by simp
            next
              case 2
              then obtain u where "u \<in> set (adjacent d reverse v)" "(x, u) \<in> ?R\<^sup>*" by blast
              then have "(x, v) \<in> ?R\<^sup>*" by (auto simp: adj_rel_def intro: rtrancl_into_rtrancl)
              then show ?thesis by auto
            qed
          qed
        next
          case 2 then show ?thesis by auto
        qed
      qed
    qed
  qed
qed

lemma topologicalOrder_props:
  assumes ac: "acyclic (edge_rel d)"
  shows "\<exists>ord. topologicalOrder d reverse = Some ord \<and> distinct ord \<and>
           set (vertices d) \<subseteq> set ord \<and>
           (\<forall>x \<in> set ord. \<exists>v \<in> set (vertices d). (x, v) \<in> (adj_rel d reverse)\<^sup>*) \<and>
           (\<forall>x \<in> set ord. \<forall>u \<in> set (adjacent d reverse x). before u x ord)"
proof -
  let ?st0 = "\<lparr>orders = [], seen = (\<lambda>v. False)\<rparr> :: 'a topo_state"
  have w: "wf (adj_rel d reverse)" using ac by (rule wf_adj_rel)
  from twe_total[OF w] obtain st' where r: "topo_walk_each d reverse (vertices d) ?st0 = Some st'"
    by blast
  have "topo_inv d reverse ?st0" by (simp add: topo_inv_def)
  with twe_post[OF w] r have p: "topo_post d reverse (vertices d) ?st0 st'" by blast
  have o: "topologicalOrder d reverse = Some (orders st')" using r by (simp add: topologicalOrder_def)
  have i: "topo_inv d reverse st'" using p by (simp add: topo_post_def)
  have s: "\<And>x. seen st' x \<longleftrightarrow> x \<in> set (orders st')" using i by (simp add: topo_inv_def)
  have 1: "distinct (orders st')" using i by (simp add: topo_inv_def)
  have 2: "set (vertices d) \<subseteq> set (orders st')" using p s by (auto simp: topo_post_def)
  have 3: "\<forall>x \<in> set (orders st'). \<exists>v \<in> set (vertices d). (x, v) \<in> (adj_rel d reverse)\<^sup>*"
    using p s by (auto simp: topo_post_def)
  have 4: "\<forall>x \<in> set (orders st'). \<forall>u \<in> set (adjacent d reverse x). before u x (orders st')"
    using i by (simp add: topo_inv_def)
  from o 1 2 3 4 show ?thesis by blast
qed

lemma closed_rtrancl:
  assumes "(x, v) \<in> r\<^sup>*" "v \<in> V" "\<forall>(a, b) \<in> r. a \<in> V \<and> b \<in> V"
  shows "x \<in> V"
  using assms by (induction rule: converse_rtrancl_induct) auto

lemma valid_dag_order:
  assumes v: "valid_dag d"
  shows "\<exists>ord. topologicalOrder d reverse = Some ord \<and> distinct ord \<and>
           set ord = set (vertices d) \<and>
           (\<forall>e \<in> set (edges d).
              if reverse then before (snd e) (fst e) ord \<and> \<not> before (fst e) (snd e) ord
              else before (fst e) (snd e) ord \<and> \<not> before (snd e) (fst e) ord)"
proof -
  from v have ac: "acyclic (edge_rel d)"
    and cl: "\<forall>e \<in> set (edges d). fst e \<in> set (vertices d) \<and> snd e \<in> set (vertices d)"
    by (simp_all add: valid_dag_def)
  from topologicalOrder_props[OF ac, of reverse] obtain ord where
    o: "topologicalOrder d reverse = Some ord" and di: "distinct ord" and
    sub: "set (vertices d) \<subseteq> set ord" and
    re: "\<forall>x \<in> set ord. \<exists>v \<in> set (vertices d). (x, v) \<in> (adj_rel d reverse)\<^sup>*" and
    be: "\<forall>x \<in> set ord. \<forall>u \<in> set (adjacent d reverse x). before u x ord"
    by blast
  have clr: "\<forall>(a, b) \<in> adj_rel d reverse. a \<in> set (vertices d) \<and> b \<in> set (vertices d)"
    using cl by (auto simp: adj_rel_eq edge_rel_def)
  have "set ord \<subseteq> set (vertices d)"
  proof
    fix x assume "x \<in> set ord"
    with re obtain v where "v \<in> set (vertices d)" "(x, v) \<in> (adj_rel d reverse)\<^sup>*" by blast
    then show "x \<in> set (vertices d)" using closed_rtrancl[OF _ _ clr] by blast
  qed
  with sub have eq: "set ord = set (vertices d)" by blast
  have "\<forall>e \<in> set (edges d).
          if reverse then before (snd e) (fst e) ord \<and> \<not> before (fst e) (snd e) ord
          else before (fst e) (snd e) ord \<and> \<not> before (snd e) (fst e) ord"
  proof
    fix e assume e: "e \<in> set (edges d)"
    then have ee: "(fst e, snd e) \<in> edge_rel d" by (simp add: edge_rel_def)
    from e cl eq have m: "fst e \<in> set ord" "snd e \<in> set ord" by auto
    show "if reverse then before (snd e) (fst e) ord \<and> \<not> before (fst e) (snd e) ord
          else before (fst e) (snd e) ord \<and> \<not> before (snd e) (fst e) ord"
    proof (cases reverse)
      case True
      with ee have "snd e \<in> set (adjacent d reverse (fst e))" by (simp add: adjacent_def set_outAdj)
      with be m have "before (snd e) (fst e) ord" by blast
      with before_distinct_asym[OF di this] True show ?thesis by simp
    next
      case False
      with ee have "fst e \<in> set (adjacent d reverse (snd e))" by (simp add: adjacent_def set_inAdj)
      with be m have "before (fst e) (snd e) ord" by blast
      with before_distinct_asym[OF di this] False show ?thesis by simp
    qed
  qed
  with o di eq show ?thesis by blast
qed

lemma valid_dag_validate:
  assumes v: "valid_dag d"
  shows "validate d = Some None"
proof (rule validate_sound)
  from v have "length (filter (\<lambda>n. inAdj d n = []) (vertices d)) = 1" by (simp add: valid_dag_def)
  then show "Root d \<noteq> None" by (simp add: Root_alt)
  from v show "acyclic (edge_rel d)" by (simp add: valid_dag_def)
qed

lemma logging_apply:
  "logging f v (s, l) = (case f v s of (r, s') \<Rightarrow> (r, (s', l @ [(v, r)])))"
  by (simp add: logging_def)

lemma walk_loop_logging:
  "walk_loop (logging f) vs (s, l) = (r, (s', log)) \<Longrightarrow>
     walk_loop f vs s = (r, s') \<and>
     (case r of
        None \<Rightarrow> log = l @ map (\<lambda>v. (v, None)) vs
      | Some e \<Rightarrow> \<exists>pre x post. vs = pre @ x # post \<and>
                    log = l @ map (\<lambda>v. (v, None)) pre @ [(x, Some e)])"
proof (induction vs arbitrary: s l)
  case Nil
  then show ?case by auto
next
  case (Cons v vs)
  obtain r1 s1 where f: "f v s = (r1, s1)" by (cases "f v s")
  show ?case
  proof (cases r1)
    case (Some e)
    with Cons.prems f have e: "r = Some e" "s' = s1" "log = l @ [(v, Some e)]"
      by (auto simp: logging_apply)
    have a: "walk_loop f (v # vs) s = (r, s')" using f Some e by simp
    have "v # vs = [] @ v # vs \<and> log = l @ map (\<lambda>v. (v, None)) [] @ [(v, Some e)]"
      using e by simp
    then have "\<exists>pre x post. v # vs = pre @ x # post \<and>
                 log = l @ map (\<lambda>v. (v, None)) pre @ [(x, Some e)]"
      by blast
    with a e(1) show ?thesis by simp
  next
    case None
    with Cons.prems f have "walk_loop (logging f) vs (s1, l @ [(v, None)]) = (r, (s', log))"
      by (simp add: logging_apply)
    from Cons.IH[OF this] have ih1: "walk_loop f vs s1 = (r, s')" and
      ih2: "(case r of
        None \<Rightarrow> log = (l @ [(v, None)]) @ map (\<lambda>v. (v, None)) vs
      | Some e \<Rightarrow> \<exists>pre x post. vs = pre @ x # post \<and>
                    log = (l @ [(v, None)]) @ map (\<lambda>v. (v, None)) pre @ [(x, Some e)])"
      by simp_all
    have a: "walk_loop f (v # vs) s = (r, s')" using f None ih1 by simp
    show ?thesis
    proof (cases r)
      case None
      with ih2 a show ?thesis by simp
    next
      case (Some e)
      with ih2 obtain pre x post where p: "vs = pre @ x # post"
        "log = (l @ [(v, None)]) @ map (\<lambda>v. (v, None)) pre @ [(x, Some e)]" by auto
      then have "v # vs = (v # pre) @ x # post \<and>
        log = l @ map (\<lambda>v. (v, None)) (v # pre) @ [(x, Some e)]"
        by simp
      then have "\<exists>pre x post. v # vs = pre @ x # post \<and>
                 log = l @ map (\<lambda>v. (v, None)) pre @ [(x, Some e)]"
        by blast
      with a Some show ?thesis by simp
    qed
  qed
qed

section \<open>The walks over a store\<close>

lemmas eval_defs = WalkTopoOrder_def WalkReverseTopoOrder_def walk_in_order_def validate_def
  topologicalOrder_def Root_alt inAdj_def outAdj_def adjacent_def cycle_walk_each.simps
  topo_walk_each.simps logging_apply

lemma walk_loop_no_error:
  "\<forall>v s. fst (f v s) = None \<Longrightarrow> fst (walk_loop f vs s) = None"
proof (induction vs arbitrary: s)
  case Nil
  show ?case by simp
next
  case (Cons v vs)
  obtain r1 s1 where f: "f v s = (r1, s1)" by (cases "f v s")
  with Cons.prems have "r1 = None" by (metis fst_conv)
  with f Cons show ?case by simp
qed

lemma walk_in_order_valid:
  assumes "validate d = Some None" "topologicalOrder d reverse = Some ord"
  shows "walk_in_order reverse d f s = Some (walk_loop f ord s)"
  using assms by (simp add: walk_in_order_def)

lemma walk_in_order_invalid:
  assumes "validate d = Some (Some e)"
  shows "walk_in_order reverse d f s = Some (Some (Invalid e), s)"
  using assms by (simp add: walk_in_order_def)

lemma logged_walk_no_error:
  assumes v: "validate d = Some None" and o: "topologicalOrder d reverse = Some ord"
    and nf: "\<forall>v s. fst (walkFunc v s) = None"
  shows "\<exists>s'. walk_in_order reverse d (logging walkFunc) (s, []) =
               Some (None, (s', map (\<lambda>v. (v, None)) ord))"
proof -
  obtain r s' log where w: "walk_loop (logging walkFunc) ord (s, []) = (r, (s', log))"
    by (metis surj_pair)
  from walk_loop_logging[OF w] have a: "walk_loop walkFunc ord s = (r, s')"
    and b: "(case r of None \<Rightarrow> log = [] @ map (\<lambda>v. (v, None)) ord
            | Some e \<Rightarrow> \<exists>pre x post. ord = pre @ x # post \<and>
                          log = [] @ map (\<lambda>v. (v, None)) pre @ [(x, Some e)])"
    by simp_all
  from walk_loop_no_error[OF nf, of ord s] a have "r = None" by simp
  with b w have "walk_loop (logging walkFunc) ord (s, []) = (None, (s', map (\<lambda>v. (v, None)) ord))"
    by simp
  with walk_in_order_valid[OF v o] show ?thesis by metis
qed

text \<open>
  Claim C1. On a store whose edges join stored vertices, with exactly one vertex without
  incoming edge and no cycle, and with a walk function that returns no error, both walks
  return \<open>nil\<close>. The calls made by \<open>WalkTopoOrder\<close> are one per stored vertex, each vertex
  once, and for every edge the call on \<open>From\<close> comes before the call on \<open>To\<close> and not
  after it; the calls made by \<open>WalkReverseTopoOrder\<close> are one per stored vertex too, and
  for every edge the call on \<open>To\<close> comes before the call on \<open>From\<close>.
\<close>

theorem WalkTopoOrder_each_vertex_once_in_order:
  assumes "valid_dag d" and "\<forall>v s. fst (walkFunc v s) = None"
  shows "\<exists>fwd bwd s1 s2.
      WalkTopoOrder d (logging walkFunc) (s, []) = Some (None, (s1, map (\<lambda>v. (v, None)) fwd)) \<and>
      WalkReverseTopoOrder d (logging walkFunc) (s, []) = Some (None, (s2, map (\<lambda>v. (v, None)) bwd)) \<and>
      distinct fwd \<and> set fwd = set (vertices d) \<and> distinct bwd \<and> set bwd = set (vertices d) \<and>
      (\<forall>e \<in> set (edges d).
         before (fst e) (snd e) fwd \<and> \<not> before (snd e) (fst e) fwd \<and>
         before (snd e) (fst e) bwd \<and> \<not> before (fst e) (snd e) bwd)"
proof -
  have v: "validate d = Some None" using assms(1) by (rule valid_dag_validate)
  from valid_dag_order[OF assms(1), of False] obtain fwd where
    f: "topologicalOrder d False = Some fwd" "distinct fwd" "set fwd = set (vertices d)"
      "\<forall>e \<in> set (edges d). before (fst e) (snd e) fwd \<and> \<not> before (snd e) (fst e) fwd"
    by auto
  from valid_dag_order[OF assms(1), of True] obtain bwd where
    b: "topologicalOrder d True = Some bwd" "distinct bwd" "set bwd = set (vertices d)"
      "\<forall>e \<in> set (edges d). before (snd e) (fst e) bwd \<and> \<not> before (fst e) (snd e) bwd"
    by auto
  from logged_walk_no_error[OF v f(1) assms(2), of s] obtain s1 where
    1: "WalkTopoOrder d (logging walkFunc) (s, []) = Some (None, (s1, map (\<lambda>v. (v, None)) fwd))"
    unfolding WalkTopoOrder_def by blast
  from logged_walk_no_error[OF v b(1) assms(2), of s] obtain s2 where
    2: "WalkReverseTopoOrder d (logging walkFunc) (s, []) = Some (None, (s2, map (\<lambda>v. (v, None)) bwd))"
    unfolding WalkReverseTopoOrder_def by blast
  from 1 2 f b show ?thesis by blast
qed

lemma valid_dag_diamond: "valid_dag diamond"
proof -
  have "acyclic (edge_rel diamond)"
    by (rule acyclicI_order[where f = "\<lambda>x. 10 - x"]) (auto simp: edge_rel_def diamond_def)
  then show ?thesis by (simp add: valid_dag_def diamond_def inAdj_def)
qed

theorem WalkTopoOrder_each_vertex_once_in_order_witness:
  "valid_dag diamond \<and>
   WalkTopoOrder diamond (logging (\<lambda>v s. (None :: (nat, unit) error option, s + v))) (0, []) =
     Some (None, (10, [(1, None), (2, None), (3, None), (4, None)])) \<and>
   WalkReverseTopoOrder diamond (logging (\<lambda>v s. (None :: (nat, unit) error option, s + v))) (0, []) =
     Some (None, (10, [(4, None), (2, None), (3, None), (1, None)]))"
  using WalkTopoOrder_each_vertex_once_in_order
          [OF valid_dag_diamond, of "\<lambda>v s. (None :: (nat, unit) error option, s + v)" 0]
    valid_dag_diamond
  by (simp add: eval_defs diamond_def)

text \<open>
  Why the edges have to join stored vertices: \<open>Connect\<close> stores an edge without
  storing its endpoints, \<open>validate\<close> accepts the store below, and the forward walk then
  never reaches the endpoint \<open>2\<close> while the reverse walk visits it although it is not a
  stored vertex.
\<close>

lemma dangling_edge_walks:
  "validate \<lparr>vertices = [1::nat], edges = [(1, 2)]\<rparr> = Some None"
  "topologicalOrder \<lparr>vertices = [1::nat], edges = [(1, 2)]\<rparr> False = Some [1]"
  "topologicalOrder \<lparr>vertices = [1::nat], edges = [(1, 2)]\<rparr> True = Some [2, 1]"
  by (simp_all add: eval_defs)

text \<open>
  Claim C6. On a valid store \<open>WalkTopoOrder\<close> returns what the loop over the computed
  order returns, with or without the log. When it returns an error, the order splits
  into the vertices before, the vertex \<open>x\<close> and the vertices after: the calls are those
  on the vertices before, which returned \<open>nil\<close>, and then the call on \<open>x\<close>, which returned
  that very error, so the number of calls is the position of \<open>x\<close> in the order and no
  vertex after \<open>x\<close> is visited. When it returns \<open>nil\<close>, every vertex of the order was
  called, in order.
\<close>

theorem WalkTopoOrder_stops_at_first_error:
  assumes "valid_dag d"
  shows "\<exists>ord r s' log.
     topologicalOrder d False = Some ord \<and>
     WalkTopoOrder d (logging walkFunc) (s, []) = Some (r, (s', log)) \<and>
     WalkTopoOrder d walkFunc s = Some (r, s') \<and>
     (case r of
        None \<Rightarrow> log = map (\<lambda>v. (v, None)) ord
      | Some e \<Rightarrow> \<exists>pre x post. ord = pre @ x # post \<and>
                    log = map (\<lambda>v. (v, None)) pre @ [(x, Some e)] \<and>
                    length log = length pre + 1)"
proof -
  have v: "validate d = Some None" using assms by (rule valid_dag_validate)
  from valid_dag_order[OF assms, of False] obtain ord where
    o: "topologicalOrder d False = Some ord" by blast
  obtain r s' log where w: "walk_loop (logging walkFunc) ord (s, []) = (r, (s', log))"
    by (metis surj_pair)
  from walk_loop_logging[OF w] have a: "walk_loop walkFunc ord s = (r, s')"
    and b: "(case r of None \<Rightarrow> log = [] @ map (\<lambda>v. (v, None)) ord
            | Some e \<Rightarrow> \<exists>pre x post. ord = pre @ x # post \<and>
                          log = [] @ map (\<lambda>v. (v, None)) pre @ [(x, Some e)])"
    by simp_all
  have 1: "WalkTopoOrder d (logging walkFunc) (s, []) = Some (r, (s', log))"
    unfolding WalkTopoOrder_def walk_in_order_valid[OF v o] using w by simp
  have 2: "WalkTopoOrder d walkFunc s = Some (r, s')"
    unfolding WalkTopoOrder_def walk_in_order_valid[OF v o] using a by simp
  have 3: "(case r of
        None \<Rightarrow> log = map (\<lambda>v. (v, None)) ord
      | Some e \<Rightarrow> \<exists>pre x post. ord = pre @ x # post \<and>
                    log = map (\<lambda>v. (v, None)) pre @ [(x, Some e)] \<and>
                    length log = length pre + 1)"
  proof (cases r)
    case None
    with b show ?thesis by simp
  next
    case (Some e)
    with b obtain pre x post where "ord = pre @ x # post"
      "log = map (\<lambda>v. (v, None)) pre @ [(x, Some e)]" by auto
    then have "ord = pre @ x # post \<and> log = map (\<lambda>v. (v, None)) pre @ [(x, Some e)] \<and>
               length log = length pre + 1" by simp
    then show ?thesis using Some by auto
  qed
  from o 1 2 3 show ?thesis by blast
qed

lemma valid_dag_chain5: "valid_dag chain5"
proof -
  have "acyclic (edge_rel chain5)"
    by (rule acyclicI_order[where f = "\<lambda>x. 10 - x"]) (auto simp: edge_rel_def chain5_def)
  then show ?thesis by (simp add: valid_dag_def chain5_def inAdj_def)
qed

theorem WalkTopoOrder_stops_at_first_error_witness:
  "valid_dag chain5 \<and>
   topologicalOrder chain5 False = Some [1, 2, 3, 4, 5] \<and>
   WalkTopoOrder chain5 (logging fail_on_third) (0, []) =
     Some (Some (Foreign ''third''), (3, [(1, None), (2, None), (3, Some (Foreign ''third''))])) \<and>
   WalkTopoOrder chain5 fail_on_third 0 = Some (Some (Foreign ''third''), 3)"
  using WalkTopoOrder_stops_at_first_error [OF valid_dag_chain5, of fail_on_third 0]
    valid_dag_chain5
  by (simp add: eval_defs chain5_def fail_on_third_def)

text \<open>
  Claim C2. \<open>validate\<close> returns an error when two stored vertices are joined by edges in
  both directions, when an edge joins a vertex to itself, and when two different stored
  vertices have no incoming edge. When \<open>validate\<close> returns an error, \<open>WalkTopoOrder\<close> and
  \<open>WalkReverseTopoOrder\<close> return that error, and the walk function has not been called:
  the log is empty and the caller's state is untouched.
\<close>

theorem validate_rejects_and_blocks_walk:
  "(A \<in> set (vertices d) \<longrightarrow> B \<in> set (vertices d) \<longrightarrow>
      (A, B) \<in> set (edges d) \<longrightarrow> (B, A) \<in> set (edges d) \<longrightarrow> (\<exists>e. validate d = Some (Some e))) \<and>
   ((A, A) \<in> set (edges d) \<longrightarrow> (\<exists>e. validate d = Some (Some e))) \<and>
   (A \<in> set (vertices d) \<longrightarrow> B \<in> set (vertices d) \<longrightarrow> A \<noteq> B \<longrightarrow>
      inAdj d A = [] \<longrightarrow> inAdj d B = [] \<longrightarrow> validate d = Some (Some NoSingleRootFound)) \<and>
   (validate d = Some (Some err) \<longrightarrow>
      WalkTopoOrder d (logging walkFunc) (s, []) = Some (Some (Invalid err), (s, [])) \<and>
      WalkReverseTopoOrder d (logging walkFunc) (s, []) = Some (Some (Invalid err), (s, [])))"
proof (intro conjI impI)
  assume h: "A \<in> set (vertices d)" "B \<in> set (vertices d)"
    "(A, B) \<in> set (edges d)" "(B, A) \<in> set (edges d)"
  obtain r where r: "validate d = Some r" using validate_total by blast
  have "r \<noteq> None"
  proof
    assume "r = None"
    with r h(1) have "(A, A) \<notin> (edge_rel d)\<^sup>+" by (simp add: validate_ok_no_cycle)
    moreover have "(A, B) \<in> edge_rel d" "(B, A) \<in> edge_rel d" using h by (simp_all add: edge_rel_def)
    then have "(A, A) \<in> (edge_rel d)\<^sup>+" by (meson trancl.simps)
    ultimately show False by simp
  qed
  with r show "\<exists>e. validate d = Some (Some e)" by auto
next
  assume h: "(A, A) \<in> set (edges d)"
  obtain r where r: "validate d = Some r" using validate_total by blast
  have "r \<noteq> None"
  proof
    assume "r = None"
    with r have "find (\<lambda>e. fst e = snd e) (edges d) = None" by (simp add: validate_ok_iff)
    with h show False unfolding find_None_iff by force
  qed
  with r show "\<exists>e. validate d = Some (Some e)" by auto
next
  assume "A \<in> set (vertices d)" "B \<in> set (vertices d)" "A \<noteq> B" "inAdj d A = []" "inAdj d B = []"
  then have "Root d = None" by (rule Root_none_two)
  then show "validate d = Some (Some NoSingleRootFound)" by (simp add: validate_def)
next
  assume "validate d = Some (Some err)"
  then show "WalkTopoOrder d (logging walkFunc) (s, []) = Some (Some (Invalid err), (s, []))"
    unfolding WalkTopoOrder_def by (rule walk_in_order_invalid)
next
  assume "validate d = Some (Some err)"
  then show "WalkReverseTopoOrder d (logging walkFunc) (s, []) = Some (Some (Invalid err), (s, []))"
    unfolding WalkReverseTopoOrder_def by (rule walk_in_order_invalid)
qed

theorem validate_rejects_and_blocks_walk_witness:
  "validate two_cycle = Some (Some CycleFound) \<and>
   validate self_loop = Some (Some (SelfCycleFound 1)) \<and>
   validate two_roots = Some (Some NoSingleRootFound) \<and>
   WalkTopoOrder two_cycle (logging fail_on_third) (0, []) = Some (Some (Invalid CycleFound), (0, [])) \<and>
   WalkReverseTopoOrder two_cycle (logging fail_on_third) (0, []) = Some (Some (Invalid CycleFound), (0, []))"
  using validate_rejects_and_blocks_walk [of 1 two_cycle 2 CycleFound fail_on_third 0]
    validate_rejects_and_blocks_walk [of 1 self_loop 1]
    validate_rejects_and_blocks_walk [of 0 two_roots 1]
  by (simp add: eval_defs two_cycle_def self_loop_def two_roots_def)

section \<open>Properties of the view package\<close>

lemma objectTypeToGVK_Some:
  "objectTypeToGVK cli (Some t) = Inr (Some g) \<longleftrightarrow>
     (\<exists>gv. ParseGroupVersion cli (APIVersion t) = Inr gv \<and> g = WithKind gv (TypeKind t))"
  by (auto simp: objectTypeToGVK_def split: sum.splits)

lemma objectTypeToGVK_not_nil: "objectTypeToGVK cli (Some t) \<noteq> Inr None"
  by (simp add: objectTypeToGVK_def split: sum.splits)

lemma objectTypeToGVK_ok_iff:
  "(\<exists>g. objectTypeToGVK cli (Some t) = Inr g) \<longleftrightarrow> (\<exists>gv. ParseGroupVersion cli (APIVersion t) = Inr gv)"
  by (auto simp: objectTypeToGVK_def split: sum.splits)

lemma matched_rules_filter:
  "matched_rules cli g rules = Inr rs \<Longrightarrow>
     rs = filter (\<lambda>r. objectTypeToGVK cli (Some (Primary r)) = Inr (Some g)) rules"
proof (induction rules arbitrary: rs)
  case Nil
  then show ?case by simp
next
  case (Cons rule rest)
  from Cons.prems obtain gvk rs' where
    1: "objectTypeToGVK cli (Some (Primary rule)) = Inr (Some gvk)" and
    2: "matched_rules cli g rest = Inr rs'" and
    3: "rs = (if gvk = g then rule # rs' else rs')"
    by (auto split: sum.splits option.splits)
  from Cons.IH[OF 2] 1 3 show ?case by auto
qed

lemma matched_rules_ok_iff:
  "(\<exists>rs. matched_rules cli g rules = Inr rs) \<longleftrightarrow>
     (\<forall>r \<in> set rules. \<exists>gv. ParseGroupVersion cli (APIVersion (Primary r)) = Inr gv)"
proof (induction rules)
  case Nil
  show ?case by simp
next
  case (Cons rule rest)
  show ?case
  proof (cases "objectTypeToGVK cli (Some (Primary rule))")
    case (Inl e)
    then have "\<not> (\<exists>gv. ParseGroupVersion cli (APIVersion (Primary rule)) = Inr gv)"
      using objectTypeToGVK_ok_iff[of cli "Primary rule"] by auto
    with Inl show ?thesis by auto
  next
    case (Inr og)
    then obtain gvk where g: "og = Some gvk" using objectTypeToGVK_not_nil[of cli "Primary rule"]
      by (cases og) auto
    from Inr have p: "\<exists>gv. ParseGroupVersion cli (APIVersion (Primary rule)) = Inr gv"
      using objectTypeToGVK_ok_iff[of cli "Primary rule"] by auto
    show ?thesis
    proof (cases "matched_rules cli g rest")
      case (Inl e)
      with Inr g Cons p show ?thesis by auto
    next
      case rs: (Inr rs')
      with Inr g Cons p show ?thesis by auto
    qed
  qed
qed

lemma WithKind_eq:
  "WithKind gv k = g \<longleftrightarrow> Group gv = Group g \<and> Version gv = Version g \<and> k = Kind g"
  by (cases g; cases gv) (auto simp: WithKind_def)

text \<open>
  Claim C7. When the matcher returns, the rules it selected are the rules of the list,
  in order, whose \<open>Primary\<close> parses to the very group, version and kind of the object:
  a rule is selected if and only if its \<open>APIVersion\<close> parses to the object's group and
  version and its kind is the object's kind. The matcher returns if and only if every
  \<open>Primary\<close> of the list parses (one that does not ends the whole operation), and
  \<open>getSecondaryObjectsOf\<close> queries for the selected rules only.
\<close>

theorem matcher_selects_by_exact_type:
  "(matched_rules cli g rules = Inr rs \<longrightarrow>
      rs = filter (\<lambda>r. objectTypeToGVK cli (Some (Primary r)) = Inr (Some g)) rules \<and>
      (\<forall>r \<in> set rules. r \<in> set rs \<longleftrightarrow>
         (\<exists>gv. ParseGroupVersion cli (APIVersion (Primary r)) = Inr gv \<and>
               Group gv = Group g \<and> Version gv = Version g \<and> TypeKind (Primary r) = Kind g))) \<and>
   ((\<exists>rs. matched_rules cli g rules = Inr rs) \<longleftrightarrow>
      (\<forall>r \<in> set rules. \<exists>gv. ParseGroupVersion cli (APIVersion (Primary r)) = Inr gv)) \<and>
   (GVKForObject cli obj = Inr g \<longrightarrow>
      getSecondaryObjectsOf cli obj rules =
        (case matched_rules cli g rules of
           Inl err \<Rightarrow> Inl err
         | Inr rs \<Rightarrow> secondaries_of_rules cli obj rs))"
proof (intro conjI impI)
  assume m: "matched_rules cli g rules = Inr rs"
  then show f: "rs = filter (\<lambda>r. objectTypeToGVK cli (Some (Primary r)) = Inr (Some g)) rules"
    by (rule matched_rules_filter)
  show "\<forall>r \<in> set rules. r \<in> set rs \<longleftrightarrow>
         (\<exists>gv. ParseGroupVersion cli (APIVersion (Primary r)) = Inr gv \<and>
               Group gv = Group g \<and> Version gv = Version g \<and> TypeKind (Primary r) = Kind g)"
  proof
    fix r assume "r \<in> set rules"
    then have "r \<in> set rs \<longleftrightarrow> objectTypeToGVK cli (Some (Primary r)) = Inr (Some g)"
      unfolding f by simp
    also have "\<dots> \<longleftrightarrow> (\<exists>gv. ParseGroupVersion cli (APIVersion (Primary r)) = Inr gv \<and>
               Group gv = Group g \<and> Version gv = Version g \<and> TypeKind (Primary r) = Kind g)"
      unfolding objectTypeToGVK_Some using WithKind_eq by metis
    finally show "r \<in> set rs \<longleftrightarrow>
         (\<exists>gv. ParseGroupVersion cli (APIVersion (Primary r)) = Inr gv \<and>
               Group gv = Group g \<and> Version gv = Version g \<and> TypeKind (Primary r) = Kind g)" .
  qed
next
  show "(\<exists>rs. matched_rules cli g rules = Inr rs) \<longleftrightarrow>
      (\<forall>r \<in> set rules. \<exists>gv. ParseGroupVersion cli (APIVersion (Primary r)) = Inr gv)"
    by (rule matched_rules_ok_iff)
next
  assume "GVKForObject cli obj = Inr g"
  then show "getSecondaryObjectsOf cli obj rules =
        (case matched_rules cli g rules of
           Inl err \<Rightarrow> Inl err
         | Inr rs \<Rightarrow> secondaries_of_rules cli obj rs)"
    by (simp add: getSecondaryObjectsOf_def)
qed

lemma collect_loop_Nil:
  "collect_loop cli rules [] objectSet objectMap = Some (Inr (objectSet, objectMap))"
  by (subst collect_loop.simps) simp

lemma collect_loop_Cons:
  "collect_loop cli rules (obj # rest) objectSet objectMap =
     (case getObjectRef cli obj of
        Inl err \<Rightarrow> Some (Inl err)
      | Inr objKey \<Rightarrow>
          (case getSecondaryObjectsOf cli obj rules of
             Inl err \<Rightarrow> Some (Inl err)
           | Inr secondaries \<Rightarrow>
               collect_loop cli rules (rest @ secondaries)
                 (insert objKey objectSet) (objectMap(objKey \<mapsto> obj))))"
  by (subst collect_loop.simps) simp

lemma collect_loop_returns:
  assumes w: "wf (owned_rel cli rules)"
  shows "\<forall>objectSet objectMap. \<exists>r. collect_loop cli rules waiting objectSet objectMap = Some r"
proof -
  let ?R = "owned_rel cli rules"
  have "\<forall>waiting. mset waiting = M \<longrightarrow>
          (\<forall>objectSet objectMap. \<exists>r. collect_loop cli rules waiting objectSet objectMap = Some r)" for M
  proof (induction M rule: wf_induct_rule[OF wf_mult[OF w]])
    case (1 M)
    show ?case
    proof (intro allI impI)
      fix waiting :: "'a list" and objectSet objectMap
      assume m: "mset waiting = M"
      show "\<exists>r. collect_loop cli rules waiting objectSet objectMap = Some r"
      proof (cases waiting)
        case Nil
        then show ?thesis by (simp add: collect_loop_Nil)
      next
        case (Cons obj rest)
        show ?thesis
        proof (cases "getObjectRef cli obj")
          case (Inl e)
          with Cons show ?thesis by (simp add: collect_loop_Cons)
        next
          case k: (Inr objKey)
          show ?thesis
          proof (cases "getSecondaryObjectsOf cli obj rules")
            case (Inl e)
            with Cons k show ?thesis by (simp add: collect_loop_Cons)
          next
            case s: (Inr secondaries)
            have "\<forall>c \<in> set_mset (mset secondaries). \<exists>j \<in> set_mset {#obj#}. (c, j) \<in> ?R"
              using s by (auto simp: owned_rel_def)
            then have "(mset rest + mset secondaries, mset rest + {#obj#}) \<in> mult ?R"
              by (intro one_step_implies_mult) simp_all
            then have "(mset (rest @ secondaries), M) \<in> mult ?R" using m Cons by simp
            with 1 have "\<exists>r. collect_loop cli rules (rest @ secondaries)
                           (insert objKey objectSet) (objectMap(objKey \<mapsto> obj)) = Some r"
              by blast
            with Cons k s show ?thesis by (simp add: collect_loop_Cons)
          qed
        qed
      qed
    qed
  qed
  then show ?thesis by blast
qed

lemma collect_loop_self_owner_diverges_aux:
  assumes "collect_loop cli' rules' waiting objectSet objectMap = Some y"
  shows "\<not> (cli' = cli \<and> rules' = rules \<and> waiting = [a] \<and>
            (\<exists>k. getObjectRef cli a = Inr k) \<and> getSecondaryObjectsOf cli a rules = Inr [a])"
  using assms
proof (induction rule: collect_loop.raw_induct[rotated, consumes 1])
  case (1 f cli' rules' waiting objectSet objectMap y)
  show ?case
  proof
    assume h: "cli' = cli \<and> rules' = rules \<and> waiting = [a] \<and>
            (\<exists>k. getObjectRef cli a = Inr k) \<and> getSecondaryObjectsOf cli a rules = Inr [a]"
    then obtain k where k: "getObjectRef cli a = Inr k" by blast
    from 1(2) h k have "f cli rules [a] (insert k objectSet) (objectMap(k \<mapsto> a)) = Some y"
      by simp
    from 1(1)[OF this] h show False by blast
  qed
qed

lemma collect_loop_self_owner_diverges:
  assumes "getObjectRef cli a = Inr k" "getSecondaryObjectsOf cli a rules = Inr [a]"
  shows "getObjectsFromCache cli a rules = None"
proof (cases "getObjectsFromCache cli a rules")
  case None
  then show ?thesis .
next
  case (Some y)
  then have "collect_loop cli rules [a] {} Map.empty = Some y" by (simp add: getObjectsFromCache_def)
  from collect_loop_self_owner_diverges_aux[OF this, of cli rules a] assms show ?thesis by blast
qed

lemma reachable_Nil: "reachable cli rules [] = {}"
  by (simp add: reachable_def)

lemma reachable_append:
  "reachable cli rules (xs @ ys) = reachable cli rules xs \<union> reachable cli rules ys"
  by (auto simp: reachable_def)

lemma reachable_single:
  assumes "getSecondaryObjectsOf cli obj rules = Inr secondaries"
  shows "reachable cli rules [obj] = insert obj (reachable cli rules secondaries)"
proof -
  let ?R = "owned_rel cli rules"
  have step: "(c, obj) \<in> ?R \<longleftrightarrow> c \<in> set secondaries" for c
    using assms by (auto simp: owned_rel_def)
  show ?thesis
  proof (rule set_eqI)
    fix y
    have "(y, obj) \<in> ?R\<^sup>* \<longleftrightarrow> y = obj \<or> (\<exists>c. (y, c) \<in> ?R\<^sup>* \<and> (c, obj) \<in> ?R)"
      by (metis rtrancl.simps)
    then show "y \<in> reachable cli rules [obj] \<longleftrightarrow> y \<in> insert obj (reachable cli rules secondaries)"
      unfolding reachable_def using step by auto
  qed
qed

lemma reachable_Cons:
  assumes "getSecondaryObjectsOf cli obj rules = Inr secondaries"
  shows "reachable cli rules (obj # rest) = insert obj (reachable cli rules (rest @ secondaries))"
proof -
  have "reachable cli rules (obj # rest) = reachable cli rules ([obj] @ rest)" by simp
  also have "\<dots> = reachable cli rules [obj] \<union> reachable cli rules rest" by (rule reachable_append)
  finally show ?thesis using reachable_single[OF assms] by (auto simp: reachable_append)
qed

lemma keys_of_insert:
  "getObjectRef cli y = Inr k \<Longrightarrow> keys_of cli (insert y X) = insert k (keys_of cli X)"
  by (auto simp: keys_of_def)

lemma refs_of_insert:
  "getObjectReference cli y = Inr r \<Longrightarrow> refs_of cli (insert y X) = insert r (refs_of cli X)"
  by (auto simp: refs_of_def)

lemma refs_of_Un: "refs_of cli (X \<union> Y) = refs_of cli X \<union> refs_of cli Y"
  by (auto simp: refs_of_def)

lemma collect_loop_post_aux:
  assumes "collect_loop cli rules waiting S M = Some y"
  shows "\<forall>S' M'. y = Inr (S', M') \<longrightarrow> collect_post cli (reachable cli rules waiting) S M S' M'"
  using assms
proof (induction rule: collect_loop.raw_induct[rotated, consumes 1])
  case (1 f cli rules waiting S M y)
  show ?case
  proof (cases waiting)
    case Nil
    with 1(2) show ?thesis by (auto simp: collect_post_def reachable_Nil keys_of_def)
  next
    case (Cons obj rest)
    show ?thesis
    proof (intro allI impI)
      fix S' M' assume y: "y = Inr (S', M')"
      from 1(2) Cons y obtain k secondaries where
        k: "getObjectRef cli obj = Inr k" and
        s: "getSecondaryObjectsOf cli obj rules = Inr secondaries" and
        r: "f cli rules (rest @ secondaries) (insert k S) (M(k \<mapsto> obj)) = Some (Inr (S', M'))"
        by (auto split: sum.splits)
      from 1(1)[OF r] have p: "collect_post cli (reachable cli rules (rest @ secondaries))
                                 (insert k S) (M(k \<mapsto> obj)) S' M'" by blast
      have e: "keys_of cli (reachable cli rules waiting) =
               insert k (keys_of cli (reachable cli rules (rest @ secondaries)))"
        unfolding Cons reachable_Cons[OF s] using k by (rule keys_of_insert)
      show "collect_post cli (reachable cli rules waiting) S M S' M'"
        unfolding collect_post_def e
      proof (intro conjI allI impI)
        show "S' = S \<union> insert k (keys_of cli (reachable cli rules (rest @ secondaries)))"
          using p by (auto simp: collect_post_def)
        show "dom M' = dom M \<union> insert k (keys_of cli (reachable cli rules (rest @ secondaries)))"
          using p by (auto simp: collect_post_def)
      next
        fix k' ob assume "M' k' = Some ob"
        with p have "(M(k \<mapsto> obj)) k' = Some ob \<or> getObjectRef cli ob = Inr k'"
          by (simp add: collect_post_def)
        then show "M k' = Some ob \<or> getObjectRef cli ob = Inr k'"
          using k by (auto split: if_splits)
      qed
    qed
  qed
qed

lemma matched_rules_idem:
  "matched_rules cli g rules = Inr mr \<Longrightarrow> matched_rules cli g mr = Inr mr"
proof (induction rules arbitrary: mr)
  case Nil
  then show ?case by simp
next
  case (Cons rule rest)
  from Cons.prems obtain gvk rs' where
    1: "objectTypeToGVK cli (Some (Primary rule)) = Inr (Some gvk)" and
    2: "matched_rules cli g rest = Inr rs'" and
    3: "mr = (if gvk = g then rule # rs' else rs')"
    by (auto split: sum.splits option.splits)
  from Cons.IH[OF 2] 1 3 show ?case by auto
qed

lemma getSecondaryObjectsOf_matched:
  assumes "GVKForObject cli obj = Inr g" "matched_rules cli g rules = Inr mr"
  shows "getSecondaryObjectsOf cli obj mr = getSecondaryObjectsOf cli obj rules"
  using assms matched_rules_idem[OF assms(2)] by (simp add: getSecondaryObjectsOf_def)

lemma tree_each_post_aux:
  assumes "tree_each cli rules objs = Some y"
  shows "\<forall>ts. y = Inr ts \<longrightarrow>
           length ts = length objs \<and>
           set (concat (map tree_primaries ts)) = refs_of cli (reachable cli rules objs)"
  using assms
proof (induction rule: tree_each.raw_induct[rotated, consumes 1])
  case (1 f cli rules objs y)
  show ?case
  proof (cases objs)
    case Nil
    with 1(2) show ?thesis by (auto simp: reachable_Nil refs_of_def)
  next
    case (Cons primary rest)
    show ?thesis
    proof (intro allI impI)
      fix ts assume y: "y = Inr ts"
      from 1(2) Cons y obtain reference g mr secondaries where
        rf: "getObjectReference cli primary = Inr reference" and
        g: "GVKForObject cli primary = Inr g" and
        mr: "matched_rules cli g rules = Inr mr" and
        s: "getSecondaryObjectsOf cli primary mr = Inr secondaries" and
        b: "Option.bind (f cli rules secondaries)
              (\<lambda>r. case r of
                      Inl err \<Rightarrow> Some (Inl err)
                    | Inr subTrees \<Rightarrow>
                        Option.bind (f cli rules rest)
                          (\<lambda>r'. case r' of
                                   Inl err \<Rightarrow> Some (Inl err)
                                 | Inr trees \<Rightarrow> Some (Inr (ObjectTreeNode reference subTrees # trees))))
            = Some (Inr ts)"
        by (auto split: sum.splits)
      from b obtain r1 where r1: "f cli rules secondaries = Some r1" and
        b1: "(case r1 of
                Inl err \<Rightarrow> Some (Inl err)
              | Inr subTrees \<Rightarrow>
                  Option.bind (f cli rules rest)
                    (\<lambda>r'. case r' of
                             Inl err \<Rightarrow> Some (Inl err)
                           | Inr trees \<Rightarrow> Some (Inr (ObjectTreeNode reference subTrees # trees))))
             = Some (Inr ts)"
        by (auto simp: bind_eq_Some_conv)
      from b1 obtain subTrees where st: "r1 = Inr subTrees" by (cases r1) auto
      from b1 st obtain r2 where r2: "f cli rules rest = Some r2" and
        b2: "(case r2 of
                Inl err \<Rightarrow> Some (Inl err)
              | Inr trees \<Rightarrow> Some (Inr (ObjectTreeNode reference subTrees # trees))) = Some (Inr ts)"
        by (auto simp: bind_eq_Some_conv)
      from b2 obtain trees where tr: "r2 = Inr trees" by (cases r2) auto
      from b2 tr have ts: "ts = ObjectTreeNode reference subTrees # trees" by simp
      from 1(1)[OF r1] st have ih1: "length subTrees = length secondaries"
        "set (concat (map tree_primaries subTrees)) = refs_of cli (reachable cli rules secondaries)"
        by simp_all
      from 1(1)[OF r2] tr have ih2: "length trees = length rest"
        "set (concat (map tree_primaries trees)) = refs_of cli (reachable cli rules rest)"
        by simp_all
      have s': "getSecondaryObjectsOf cli primary rules = Inr secondaries"
        using getSecondaryObjectsOf_matched[OF g mr] s by simp
      have "refs_of cli (reachable cli rules objs) =
            insert reference (refs_of cli (reachable cli rules rest) \<union>
                              refs_of cli (reachable cli rules secondaries))"
        unfolding Cons reachable_Cons[OF s'] refs_of_insert[OF rf] reachable_append refs_of_Un ..
      then show "length ts = length objs \<and>
           set (concat (map tree_primaries ts)) = refs_of cli (reachable cli rules objs)"
        using ts ih1 ih2 Cons by auto
    qed
  qed
qed

lemmas demo_defs = demo_client_def demo_parse_def demo_rules_def owns_def the_cluster_def
  pod1_def pod2_def shared_cm_def demo_cache_def demo_key_def self_rules_def
  getSecondaryObjectsOf_def getObjectRef_def getObjectReference_def getObjectsByGVK_def
  parseMatchingLabels_def objectTypeToGVK_def objectReferenceToRef_def WithKind_def
  GroupVersion_of_def

lemma demo_secondaries:
  "getSecondaryObjectsOf (demo_client demo_cache) the_cluster demo_rules = Inr [pod1, pod2]"
  "getSecondaryObjectsOf (demo_client demo_cache) pod1 demo_rules = Inr [shared_cm]"
  "getSecondaryObjectsOf (demo_client demo_cache) pod2 demo_rules = Inr [shared_cm]"
  "getSecondaryObjectsOf (demo_client demo_cache) shared_cm demo_rules = Inr []"
  by (simp_all add: demo_defs)

lemma demo_self: "getSecondaryObjectsOf (demo_client [pod1]) pod1 self_rules = Inr [pod1]"
  by (simp add: demo_defs)

lemma demo_matched:
  "matched_rules (demo_client demo_cache) \<lparr>Group = [], Version = ''v1'', Kind = ''Cluster''\<rparr> demo_rules
     = Inr [owns ''v1'' ''Cluster'' ''Pod'']"
  by (simp add: demo_defs)

lemma demo_flat:
  "map_option (map_sum id fst) (getObjectsFromCache (demo_client demo_cache) the_cluster demo_rules) =
     Some (Inr {demo_key ''Cluster'' ''c'', demo_key ''Pod'' ''p1'', demo_key ''Pod'' ''p2'',
                demo_key ''ConfigMap'' ''m''})"
  by (simp add: getObjectsFromCache_def collect_loop.simps demo_defs insert_commute)

lemma demo_tree:
  "getObjectTreeFromCache (demo_client demo_cache) (Some the_cluster) demo_rules =
     Some (Inr (Some
       (ObjectTreeNode
          \<lparr>RefAPIVersion = ''v1'', RefKind = ''Cluster'', Namespace = ''default'', Name = ''c'',
            UID = ''c'', ResourceVersion = ''1''\<rparr>
          [ObjectTreeNode
             \<lparr>RefAPIVersion = ''v1'', RefKind = ''Pod'', Namespace = ''default'', Name = ''p1'',
               UID = ''p1'', ResourceVersion = ''1''\<rparr>
             [ObjectTreeNode
                \<lparr>RefAPIVersion = ''v1'', RefKind = ''ConfigMap'', Namespace = ''default'', Name = ''m'',
                  UID = ''m'', ResourceVersion = ''1''\<rparr> []],
           ObjectTreeNode
             \<lparr>RefAPIVersion = ''v1'', RefKind = ''Pod'', Namespace = ''default'', Name = ''p2'',
               UID = ''p2'', ResourceVersion = ''1''\<rparr>
             [ObjectTreeNode
                \<lparr>RefAPIVersion = ''v1'', RefKind = ''ConfigMap'', Namespace = ''default'', Name = ''m'',
                  UID = ''m'', ResourceVersion = ''1''\<rparr> []]])))"
  by (simp add: getObjectTreeFromCache_def tree_each.simps demo_defs)

lemma reachable_closed:
  assumes "root \<in> X" "\<forall>(c, p) \<in> owned_rel cli rules. p \<in> X \<longrightarrow> c \<in> X"
  shows "reachable cli rules [root] \<subseteq> X"
proof
  fix y assume "y \<in> reachable cli rules [root]"
  then have "(y, root) \<in> (owned_rel cli rules)\<^sup>*" by (simp add: reachable_def)
  then show "y \<in> X" using assms by (induction rule: converse_rtrancl_induct) auto
qed

lemma reachable_step:
  assumes "obj \<in> reachable cli rules [root]" "(c, obj) \<in> owned_rel cli rules"
  shows "c \<in> reachable cli rules [root]"
  using assms by (auto simp: reachable_def intro: converse_rtrancl_into_rtrancl)

lemma collect_loop_returns_below:
  assumes w: "wf (owned_below cli rules root)"
  shows "set waiting \<subseteq> reachable cli rules [root] \<Longrightarrow>
         \<exists>r. collect_loop cli rules waiting objectSet objectMap = Some r"
proof -
  let ?R = "owned_below cli rules root"
  let ?X = "reachable cli rules [root]"
  have "\<forall>waiting. mset waiting = M \<longrightarrow> set waiting \<subseteq> ?X \<longrightarrow>
          (\<forall>objectSet objectMap. \<exists>r. collect_loop cli rules waiting objectSet objectMap = Some r)" for M
  proof (induction M rule: wf_induct_rule[OF wf_mult[OF w]])
    case (1 M)
    show ?case
    proof (intro allI impI)
      fix waiting :: "'a list" and objectSet objectMap
      assume m: "mset waiting = M" and sub: "set waiting \<subseteq> ?X"
      show "\<exists>r. collect_loop cli rules waiting objectSet objectMap = Some r"
      proof (cases waiting)
        case Nil
        then show ?thesis by (simp add: collect_loop_Nil)
      next
        case (Cons obj rest)
        with sub have ox: "obj \<in> ?X" and rx: "set rest \<subseteq> ?X" by simp_all
        show ?thesis
        proof (cases "getObjectRef cli obj")
          case (Inl e)
          with Cons show ?thesis by (simp add: collect_loop_Cons)
        next
          case k: (Inr objKey)
          show ?thesis
          proof (cases "getSecondaryObjectsOf cli obj rules")
            case (Inl e)
            with Cons k show ?thesis by (simp add: collect_loop_Cons)
          next
            case s: (Inr secondaries)
            have o: "\<forall>c \<in> set secondaries. (c, obj) \<in> owned_rel cli rules"
              using s by (auto simp: owned_rel_def)
            then have "\<forall>c \<in> set_mset (mset secondaries). \<exists>j \<in> set_mset {#obj#}. (c, j) \<in> ?R"
              using ox by (simp add: owned_below_def)
            then have "(mset rest + mset secondaries, mset rest + {#obj#}) \<in> mult ?R"
              by (intro one_step_implies_mult) simp_all
            then have a: "(mset (rest @ secondaries), M) \<in> mult ?R" using m Cons by simp
            have b: "set (rest @ secondaries) \<subseteq> ?X"
              using rx o reachable_step[OF ox] by auto
            from 1 a b have "\<exists>r. collect_loop cli rules (rest @ secondaries)
                           (insert objKey objectSet) (objectMap(objKey \<mapsto> obj)) = Some r"
              by blast
            with Cons k s show ?thesis by (simp add: collect_loop_Cons)
          qed
        qed
      qed
    qed
  qed
  then show "set waiting \<subseteq> ?X \<Longrightarrow> \<exists>r. collect_loop cli rules waiting objectSet objectMap = Some r"
    by blast
qed

text \<open>
  Claim C9, as amended. An iteration of the collector takes the front object off the
  list, inserts its identity in the set and the map, and pushes every secondary of the
  object to the back, discovered before or not. The loop returns for every root below
  which the ownership graph is finite and has no cycle, also when an object is reached
  along more than one path.
\<close>

theorem collector_returns_without_ownership_cycle:
  "(getObjectRef cli obj = Inr objKey \<longrightarrow> getSecondaryObjectsOf cli obj rules = Inr secondaries \<longrightarrow>
      collect_loop cli rules (obj # rest) objectSet objectMap =
        collect_loop cli rules (rest @ secondaries)
          (insert objKey objectSet) (objectMap(objKey \<mapsto> obj))) \<and>
   (finite (owned_below cli rules root) \<longrightarrow> acyclic (owned_below cli rules root) \<longrightarrow>
      (\<exists>r. getObjectsFromCache cli root rules = Some r))"
proof (intro conjI impI)
  assume "getObjectRef cli obj = Inr objKey" "getSecondaryObjectsOf cli obj rules = Inr secondaries"
  then show "collect_loop cli rules (obj # rest) objectSet objectMap =
        collect_loop cli rules (rest @ secondaries)
          (insert objKey objectSet) (objectMap(objKey \<mapsto> obj))"
    by (simp add: collect_loop_Cons)
next
  assume "finite (owned_below cli rules root)" "acyclic (owned_below cli rules root)"
  then have w: "wf (owned_below cli rules root)" by (rule finite_acyclic_wf)
  have "set [root] \<subseteq> reachable cli rules [root]" by (simp add: reachable_def)
  from collect_loop_returns_below[OF w this]
  show "\<exists>r. getObjectsFromCache cli root rules = Some r"
    by (simp add: getObjectsFromCache_def)
qed

lemma demo_reachable:
  "reachable (demo_client demo_cache) demo_rules [the_cluster] = {the_cluster, pod1, pod2, shared_cm}"
  by (simp add: reachable_Cons[OF demo_secondaries(1)] reachable_Cons[OF demo_secondaries(2)]
      reachable_Cons[OF demo_secondaries(3)] reachable_Cons[OF demo_secondaries(4)] reachable_Nil
      insert_commute)

lemma demo_owned_below:
  "owned_below (demo_client demo_cache) demo_rules the_cluster \<subseteq>
     {(pod1, the_cluster), (pod2, the_cluster), (shared_cm, pod1), (shared_cm, pod2)}"
  unfolding owned_below_def demo_reachable owned_rel_def
  using demo_secondaries by auto

lemma demo_finite_acyclic:
  "finite (owned_below (demo_client demo_cache) demo_rules the_cluster)"
  "acyclic (owned_below (demo_client demo_cache) demo_rules the_cluster)"
proof -
  let ?E = "{(pod1, the_cluster), (pod2, the_cluster), (shared_cm, pod1), (shared_cm, pod2)}"
  show "finite (owned_below (demo_client demo_cache) demo_rules the_cluster)"
    by (rule finite_subset[OF demo_owned_below]) simp
  have "acyclic ?E"
    by (rule acyclicI_order[where f = "\<lambda>ob. if okind ob = ''Cluster'' then 0::nat
                                              else if okind ob = ''Pod'' then 1 else 2"])
       (auto simp: the_cluster_def pod1_def pod2_def shared_cm_def)
  then show "acyclic (owned_below (demo_client demo_cache) demo_rules the_cluster)"
    using demo_owned_below by (rule acyclic_subset)
qed

theorem collector_returns_without_ownership_cycle_witness:
  "finite (owned_below (demo_client demo_cache) demo_rules the_cluster) \<and>
   acyclic (owned_below (demo_client demo_cache) demo_rules the_cluster) \<and>
   (\<exists>r. getObjectsFromCache (demo_client demo_cache) the_cluster demo_rules = Some r) \<and>
   collect_loop (demo_client demo_cache) demo_rules [pod1, pod2] {} Map.empty =
     collect_loop (demo_client demo_cache) demo_rules [pod2, shared_cm]
       {demo_key ''Pod'' ''p1''} [demo_key ''Pod'' ''p1'' \<mapsto> pod1]"
  using collector_returns_without_ownership_cycle
          [of "demo_client demo_cache" pod1 "demo_key ''Pod'' ''p1''" demo_rules "[shared_cm]"
              "[pod2]" "{}" Map.empty the_cluster]
    demo_finite_acyclic demo_secondaries(2)
  by (simp add: getObjectRef_def demo_client_def demo_key_def pod1_def)

lemma self_owner_finite:
  "finite (owned_below (demo_client [pod1]) self_rules pod1)"
proof -
  have c: "\<forall>(c, p) \<in> owned_rel (demo_client [pod1]) self_rules. p \<in> {pod1} \<longrightarrow> c \<in> {pod1}"
    using demo_self by (auto simp: owned_rel_def)
  have "reachable (demo_client [pod1]) self_rules [pod1] \<subseteq> {pod1}"
    by (rule reachable_closed[OF _ c]) simp
  then have "owned_below (demo_client [pod1]) self_rules pod1 \<subseteq> {(pod1, pod1)}"
    using c by (auto simp: owned_below_def)
  then show ?thesis by (rule finite_subset) simp
qed

text \<open>
  Claim C9 as stated fails: a single pod that matches its own ownership rule is a
  finite ownership graph, every iteration pushes the pod again, and the collector
  does not return.
\<close>

theorem collector_self_owner_counterexample:
  "finite (owned_below (demo_client [pod1]) self_rules pod1) \<and>
   getSecondaryObjectsOf (demo_client [pod1]) pod1 self_rules = Inr [pod1] \<and>
   getObjectsFromCache (demo_client [pod1]) pod1 self_rules = None"
proof -
  have k: "getObjectRef (demo_client [pod1]) pod1 = Inr (demo_key ''Pod'' ''p1'')"
    by (simp add: demo_defs)
  from collect_loop_self_owner_diverges[OF k demo_self] self_owner_finite demo_self
  show ?thesis by simp
qed

lemma key_of_reference:
  assumes rt: "\<forall>obj gvk. GVKForObject cli obj = Inr gvk \<longrightarrow>
                 ParseGroupVersion cli (GroupVersionString cli (GroupVersion_of gvk)) =
                   Inr (GroupVersion_of gvk)"
  shows "getObjectRef cli y = Inr k \<longleftrightarrow>
         (\<exists>reference. getObjectReference cli y = Inr reference \<and>
                      objectReferenceToRef cli (Some reference) = Inr (Some k))"
proof (cases "GVKForObject cli y")
  case (Inl e)
  then show ?thesis by (simp add: getObjectRef_def getObjectReference_def)
next
  case (Inr gvk)
  with rt have p: "ParseGroupVersion cli (GroupVersionString cli (GroupVersion_of gvk)) =
                   Inr (GroupVersion_of gvk)" by blast
  have w: "WithKind (GroupVersion_of gvk) (Kind gvk) = gvk"
    by (cases gvk) (simp add: WithKind_def GroupVersion_of_def)
  show ?thesis
    using Inr p w
    by (auto simp: getObjectRef_def getObjectReference_def objectReferenceToRef_def)
qed

text \<open>
  Claim C8. Where printing and parsing the group and version of every resolved type
  gives it back, and both builders return a result for the same root and rules, the
  identity set of the flat collector is the set of the identities of the \<open>Primary\<close>
  references of the tree. The set holds each identity once (it is a set), the map has
  exactly these keys, and each key maps to an object of that identity.
\<close>

theorem flat_set_is_identity_set_of_tree:
  assumes rt: "\<forall>obj gvk. GVKForObject cli obj = Inr gvk \<longrightarrow>
                 ParseGroupVersion cli (GroupVersionString cli (GroupVersion_of gvk)) =
                   Inr (GroupVersion_of gvk)"
    and flat: "getObjectsFromCache cli root rules = Some (Inr (objectSet, objectMap))"
    and tree: "getObjectTreeFromCache cli (Some root) rules = Some (Inr (Some tree))"
  shows "objectSet = {k. \<exists>reference \<in> set (tree_primaries tree).
                          objectReferenceToRef cli (Some reference) = Inr (Some k)} \<and>
         dom objectMap = objectSet \<and>
         (\<forall>k \<in> objectSet. \<exists>ob. objectMap k = Some ob \<and> getObjectRef cli ob = Inr k)"
proof -
  let ?X = "reachable cli rules [root]"
  from flat have "collect_loop cli rules [root] {} Map.empty = Some (Inr (objectSet, objectMap))"
    by (simp add: getObjectsFromCache_def)
  from collect_loop_post_aux[OF this]
  have p: "collect_post cli ?X {} Map.empty objectSet objectMap" by simp
  then have S: "objectSet = keys_of cli ?X" and D: "dom objectMap = keys_of cli ?X"
    and V: "\<forall>k ob. objectMap k = Some ob \<longrightarrow> getObjectRef cli ob = Inr k"
    by (simp_all add: collect_post_def)
  from tree obtain z where z: "tree_each cli rules [root] = Some z"
    and z': "(case z of Inl err \<Rightarrow> Inl err | Inr trees \<Rightarrow> Inr (Some (hd trees))) = Inr (Some tree)"
    by (auto simp: getObjectTreeFromCache_def)
  from z' obtain ts where zt: "z = Inr ts" and h: "tree = hd ts" by (cases z) auto
  from z zt have t: "tree_each cli rules [root] = Some (Inr ts)" by simp
  from tree_each_post_aux[OF t] have l: "length ts = 1"
    and r: "set (concat (map tree_primaries ts)) = refs_of cli ?X" by simp_all
  from l h have "ts = [tree]" by (cases ts) simp_all
  with r have R: "set (tree_primaries tree) = refs_of cli ?X" by simp
  have 1: "objectSet = {k. \<exists>reference \<in> set (tree_primaries tree).
                          objectReferenceToRef cli (Some reference) = Inr (Some k)}"
    unfolding S R keys_of_def refs_of_def using key_of_reference[OF rt] by blast
  have 2: "dom objectMap = objectSet" using S D by simp
  have 3: "\<forall>k \<in> objectSet. \<exists>ob. objectMap k = Some ob \<and> getObjectRef cli ob = Inr k"
  proof
    fix k assume "k \<in> objectSet"
    with 2 obtain ob where "objectMap k = Some ob" by auto
    with V show "\<exists>ob. objectMap k = Some ob \<and> getObjectRef cli ob = Inr k" by blast
  qed
  from 1 2 3 show ?thesis by blast
qed

lemma demo_tree_built:
  "getObjectTreeFromCache (demo_client demo_cache) (Some the_cluster) demo_rules =
     Some (Inr (Some demo_tree))"
  by (simp add: getObjectTreeFromCache_def tree_each.simps demo_defs demo_tree_def demo_leaf_def)

lemma demo_flat_built:
  "\<exists>objectMap. getObjectsFromCache (demo_client demo_cache) the_cluster demo_rules =
     Some (Inr (demo_keys, objectMap))"
proof -
  have f: "map_option (map_sum id fst)
             (getObjectsFromCache (demo_client demo_cache) the_cluster demo_rules) =
           Some (Inr demo_keys)"
    by (simp add: getObjectsFromCache_def collect_loop.simps demo_defs demo_keys_def insert_commute)
  then obtain z where z: "getObjectsFromCache (demo_client demo_cache) the_cluster demo_rules = Some z"
    and m: "map_sum id fst z = Inr demo_keys" by auto
  from m obtain p where "z = Inr p" "fst p = demo_keys" by (cases z) auto
  with z show ?thesis by (cases p) auto
qed

lemma demo_roundtrip:
  "\<forall>obj gvk. GVKForObject (demo_client demo_cache) obj = Inr gvk \<longrightarrow>
     ParseGroupVersion (demo_client demo_cache)
       (GroupVersionString (demo_client demo_cache) (GroupVersion_of gvk)) =
     Inr (GroupVersion_of gvk)"
  by (auto simp: demo_client_def demo_parse_def GroupVersion_of_def)

theorem flat_set_is_identity_set_of_tree_witness:
  "getObjectTreeFromCache (demo_client demo_cache) (Some the_cluster) demo_rules =
     Some (Inr (Some demo_tree)) \<and>
   (\<exists>objectMap. getObjectsFromCache (demo_client demo_cache) the_cluster demo_rules =
      Some (Inr (demo_keys, objectMap))) \<and>
   length (tree_primaries demo_tree) = 5 \<and> card demo_keys = 4 \<and>
   demo_keys = {k. \<exists>reference \<in> set (tree_primaries demo_tree).
                    objectReferenceToRef (demo_client demo_cache) (Some reference) = Inr (Some k)}"
proof -
  from demo_flat_built obtain objectMap where
    flat: "getObjectsFromCache (demo_client demo_cache) the_cluster demo_rules =
             Some (Inr (demo_keys, objectMap))" by blast
  have l: "length (tree_primaries demo_tree) = 5" by (simp add: demo_tree_def demo_leaf_def)
  have c: "card demo_keys = 4" by (simp add: demo_keys_def demo_key_def)
  from flat_set_is_identity_set_of_tree [OF demo_roundtrip flat demo_tree_built]
    demo_tree_built demo_flat_built l c
  show ?thesis by blast
qed

theorem matcher_selects_by_exact_type_witness:
  "GVKForObject (demo_client demo_cache) the_cluster =
     Inr \<lparr>Group = [], Version = ''v1'', Kind = ''Cluster''\<rparr> \<and>
   matched_rules (demo_client demo_cache) \<lparr>Group = [], Version = ''v1'', Kind = ''Cluster''\<rparr>
     demo_rules = Inr [owns ''v1'' ''Cluster'' ''Pod''] \<and>
   owns ''apps/v1'' ''Cluster'' ''ConfigMap'' \<in> set demo_rules \<and>
   owns ''apps/v1'' ''Cluster'' ''ConfigMap'' \<notin> set [owns ''v1'' ''Cluster'' ''Pod''] \<and>
   getSecondaryObjectsOf (demo_client demo_cache) the_cluster demo_rules =
     secondaries_of_rules (demo_client demo_cache) the_cluster [owns ''v1'' ''Cluster'' ''Pod'']"
proof -
  let ?g = "\<lparr>Group = [], Version = ''v1'', Kind = ''Cluster''\<rparr>"
  have g: "GVKForObject (demo_client demo_cache) the_cluster = Inr ?g"
    by (simp add: demo_client_def the_cluster_def)
  have m: "owns ''apps/v1'' ''Cluster'' ''ConfigMap'' \<in> set demo_rules"
    "owns ''apps/v1'' ''Cluster'' ''ConfigMap'' \<notin> set [owns ''v1'' ''Cluster'' ''Pod'']"
    by (simp_all add: demo_rules_def owns_def)
  from matcher_selects_by_exact_type
          [of "demo_client demo_cache" ?g demo_rules "[owns ''v1'' ''Cluster'' ''Pod'']" the_cluster]
    g
  have "getSecondaryObjectsOf (demo_client demo_cache) the_cluster demo_rules =
          (case matched_rules (demo_client demo_cache) ?g demo_rules of
             Inl err \<Rightarrow> Inl err
           | Inr rs \<Rightarrow> secondaries_of_rules (demo_client demo_cache) the_cluster rs)"
    by blast
  then have "getSecondaryObjectsOf (demo_client demo_cache) the_cluster demo_rules =
     secondaries_of_rules (demo_client demo_cache) the_cluster [owns ''v1'' ''Cluster'' ''Pod'']"
    unfolding demo_matched by (simp only: sum.case)
  with g demo_matched m show ?thesis by blast
qed

end
